theory Spec2Isabelle
  imports Complex_Main "HOL-Library.Multiset" "HOL-Library.Char_ord" "HOL-Library.List_Lexorder"
    "HOL-Library.Product_Lexorder"
begin

section \<open>Numbers, tables and errors\<close>

text \<open>
  The notebook works on float64 cells. A cell is a real number or one of the three IEEE
  special values; the sign of zero is not modelled. pandas stores a missing measurement
  as \<open>NaN\<close>.

  Two sets of operations follow. \<open>fl_add\<close>, \<open>fl_sub\<close>, \<open>fl_mul\<close>, \<open>fl_div\<close> and
  \<open>fl_sqrt\<close> give the exact result with the IEEE rules for the special values; they
  describe the standardisation, whose properties below do not depend on the values
  computed. \<open>r_add\<close>, \<open>r_sub\<close>, \<open>r_mul\<close>, \<open>r_div\<close> and \<open>r_sqrt\<close> round that result to
  the nearest float64, as the processor does; they describe the printed proportions and
  the correlation matrix.
\<close>

datatype fl = Fin real | PosInf | NegInf | NaN

fun isfinite :: "fl \<Rightarrow> bool" where
  "isfinite (Fin a) = True"
| "isfinite _ = False"

fun fl_neg :: "fl \<Rightarrow> fl" where
  "fl_neg (Fin a) = Fin (- a)"
| "fl_neg PosInf = NegInf"
| "fl_neg NegInf = PosInf"
| "fl_neg NaN = NaN"

fun fl_add :: "fl \<Rightarrow> fl \<Rightarrow> fl" where
  "fl_add (Fin a) (Fin b) = Fin (a + b)"
| "fl_add NaN _ = NaN"
| "fl_add _ NaN = NaN"
| "fl_add PosInf NegInf = NaN"
| "fl_add NegInf PosInf = NaN"
| "fl_add PosInf _ = PosInf"
| "fl_add _ PosInf = PosInf"
| "fl_add NegInf _ = NegInf"
| "fl_add _ NegInf = NegInf"

definition fl_sub :: "fl \<Rightarrow> fl \<Rightarrow> fl" where
  "fl_sub a b = fl_add a (fl_neg b)"

text \<open>The sign of an infinite product or quotient, given the sign of the finite operand.\<close>

definition signed_inf :: "bool \<Rightarrow> fl" where
  "signed_inf positive = (if positive then PosInf else NegInf)"

fun fl_mul :: "fl \<Rightarrow> fl \<Rightarrow> fl" where
  "fl_mul (Fin a) (Fin b) = Fin (a * b)"
| "fl_mul NaN _ = NaN"
| "fl_mul _ NaN = NaN"
| "fl_mul (Fin a) PosInf = (if a = 0 then NaN else signed_inf (0 < a))"
| "fl_mul (Fin a) NegInf = (if a = 0 then NaN else signed_inf (a < 0))"
| "fl_mul PosInf (Fin b) = (if b = 0 then NaN else signed_inf (0 < b))"
| "fl_mul NegInf (Fin b) = (if b = 0 then NaN else signed_inf (b < 0))"
| "fl_mul PosInf PosInf = PosInf"
| "fl_mul PosInf NegInf = NegInf"
| "fl_mul NegInf PosInf = NegInf"
| "fl_mul NegInf NegInf = PosInf"

text \<open>
  Float division does not raise: a nonzero finite value over zero is an infinity, zero
  over zero is \<open>NaN\<close>.
\<close>

fun fl_div :: "fl \<Rightarrow> fl \<Rightarrow> fl" where
  "fl_div (Fin a) (Fin b) =
     (if b = 0 then (if a = 0 then NaN else signed_inf (0 < a)) else Fin (a / b))"
| "fl_div NaN _ = NaN"
| "fl_div _ NaN = NaN"
| "fl_div (Fin a) _ = Fin 0"
| "fl_div PosInf (Fin b) = signed_inf (0 \<le> b)"
| "fl_div NegInf (Fin b) = signed_inf (b < 0)"
| "fl_div _ _ = NaN"

fun fl_sqrt :: "fl \<Rightarrow> fl" where
  "fl_sqrt (Fin a) = (if a < 0 then NaN else Fin (sqrt a))"
| "fl_sqrt PosInf = PosInf"
| "fl_sqrt NegInf = NaN"
| "fl_sqrt NaN = NaN"

definition fl_sum :: "fl list \<Rightarrow> fl" where
  "fl_sum xs = foldr fl_add xs (Fin 0)"

text \<open>\<open>np.clip(x, -1, 1)\<close>\<close>

fun clip1 :: "fl \<Rightarrow> fl" where
  "clip1 (Fin a) = Fin (min (max a (- 1)) 1)"
| "clip1 PosInf = Fin 1"
| "clip1 NegInf = Fin (- 1)"
| "clip1 NaN = NaN"

subsection \<open>Rounding to float64\<close>

text \<open>
  A float64 has 53 significant bits: between \<open>2^e\<close> and \<open>2^(e + 1)\<close> the floats are the
  multiples of \<open>2^(e - 52)\<close>, and below \<open>2^(-1022)\<close> the multiples of \<open>2^(-1074)\<close>.
  A real number is rounded to the nearest float, a tie to the one whose last bit is
  zero, and a result of magnitude \<open>2^1024\<close> or more becomes an infinity.
\<close>

definition pow2 :: "int \<Rightarrow> real" where
  "pow2 e = (if 0 \<le> e then 2 ^ nat e else 1 / 2 ^ nat (- e))"

definition rne :: "real \<Rightarrow> int" where
  "rne y =
     (let f = \<lfloor>y\<rfloor>; d = y - of_int f
      in if d < 1 / 2 then f else if 1 / 2 < d then f + 1 else if even f then f else f + 1)"

definition binade :: "real \<Rightarrow> int" where
  "binade x = max \<lfloor>log 2 \<bar>x\<bar>\<rfloor> (- 1022)"

definition round64 :: "real \<Rightarrow> fl" where
  "round64 x =
     (if x = 0 then Fin 0
      else let q = pow2 (binade x - 52); r = of_int (rne (x / q)) * q
           in if pow2 1024 \<le> \<bar>r\<bar> then signed_inf (0 < x) else Fin r)"

definition rnd :: "fl \<Rightarrow> fl" where
  "rnd v = (case v of Fin x \<Rightarrow> round64 x | _ \<Rightarrow> v)"

definition r_add :: "fl \<Rightarrow> fl \<Rightarrow> fl" where
  "r_add a b = rnd (fl_add a b)"

definition r_sub :: "fl \<Rightarrow> fl \<Rightarrow> fl" where
  "r_sub a b = rnd (fl_sub a b)"

definition r_mul :: "fl \<Rightarrow> fl \<Rightarrow> fl" where
  "r_mul a b = rnd (fl_mul a b)"

definition r_div :: "fl \<Rightarrow> fl \<Rightarrow> fl" where
  "r_div a b = rnd (fl_div a b)"

definition r_sqrt :: "fl \<Rightarrow> fl" where
  "r_sqrt a = rnd (fl_sqrt a)"

text \<open>
  \<open>np.sum\<close> of fewer than eight floats adds them from left to right, starting from
  zero. (Longer sums, and the sums inside a matrix product, are added in an order the
  libraries choose; they are added from left to right here as well.)
\<close>

definition r_sum :: "fl list \<Rightarrow> fl" where
  "r_sum xs = foldl r_add (Fin 0) xs"

datatype error =
  KeyError string | NameError string | AttributeError string | ValueError | IndexError

text \<open>
  A DataFrame: column labels, row labels, and the cells row by row (one list per row,
  one cell per column). A Series indexed by column labels is a list of labelled values.
\<close>

record frame =
  columns :: "string list"
  index :: "nat list"
  data :: "fl list list"

type_synonym series = "(string \<times> fl) list"

text \<open>Position of a label in a list of labels (the length of the list when absent).\<close>

definition pos :: "'a \<Rightarrow> 'a list \<Rightarrow> nat" where
  "pos c cs = length (takeWhile (\<lambda>x. x \<noteq> c) cs)"

definition column :: "frame \<Rightarrow> string \<Rightarrow> fl list" where
  "column f c = map (\<lambda>r. r ! pos c (columns f)) (data f)"

text \<open>\<open>f.loc[:, names]\<close>: a new table with the named columns; a missing label raises.\<close>

definition loc_cols :: "frame \<Rightarrow> string list \<Rightarrow> error + frame" where
  "loc_cols f names =
     (case filter (\<lambda>c. c \<notin> set (columns f)) names of
        m # _ \<Rightarrow> Inl (KeyError m)
      | [] \<Rightarrow> Inr \<lparr>columns = names, index = index f,
                   data = map (\<lambda>r. map (\<lambda>c. r ! pos c (columns f)) names) (data f)\<rparr>)"

text \<open>\<open>f.dropna()\<close>: the rows without any missing cell, labels and cells as they were.\<close>

definition dropna :: "frame \<Rightarrow> frame" where
  "dropna f =
     (let keep = filter (\<lambda>(i, r). NaN \<notin> set r) (zip (index f) (data f))
      in \<lparr>columns = columns f, index = map fst keep, data = map snd keep\<rparr>)"

subsection \<open>Column statistics\<close>

text \<open>
  \<open>f.mean(0)\<close> and \<open>f.std(0)\<close> skip missing cells; the standard deviation divides by
  the count less one and is \<open>NaN\<close> for fewer than two values.
\<close>

definition nanmean :: "fl list \<Rightarrow> fl" where
  "nanmean xs =
     (let ys = filter (\<lambda>v. v \<noteq> NaN) xs
      in if ys = [] then NaN else fl_div (fl_sum ys) (Fin (real (length ys))))"

definition nanvar :: "fl list \<Rightarrow> fl" where
  "nanvar xs =
     (let ys = filter (\<lambda>v. v \<noteq> NaN) xs; count = length ys
      in if count \<le> 1 then NaN
         else let avg = fl_div (fl_sum ys) (Fin (real count));
                  sqr = map (\<lambda>v. fl_mul (fl_sub avg v) (fl_sub avg v)) ys
              in fl_div (fl_sum sqr) (Fin (real (count - 1))))"

definition nanstd :: "fl list \<Rightarrow> fl" where
  "nanstd xs = fl_sqrt (nanvar xs)"

definition mean0 :: "frame \<Rightarrow> series" where
  "mean0 f = map (\<lambda>c. (c, nanmean (column f c))) (columns f)"

definition std0 :: "frame \<Rightarrow> series" where
  "std0 f = map (\<lambda>c. (c, nanstd (column f c))) (columns f)"

subsection \<open>Arithmetic between a table and a series\<close>

text \<open>
  \<open>f op s\<close> matches the labels of the series with the columns of the table. The result
  has the union of the labels (sorted unless the two lists are equal), and a cell is
  \<open>NaN\<close> where either side lacks the label. The in-place form \<open>f op= s\<close> computes
  \<open>f op s\<close> and stores it back under the columns of \<open>f\<close>.
\<close>

definition series_get :: "series \<Rightarrow> string \<Rightarrow> fl" where
  "series_get s c = (case map_of s c of Some v \<Rightarrow> v | None \<Rightarrow> NaN)"

definition cell_at :: "string list \<Rightarrow> fl list \<Rightarrow> string \<Rightarrow> fl" where
  "cell_at cs r c = (if c \<in> set cs then r ! pos c cs else NaN)"

definition union_labels :: "string list \<Rightarrow> string list \<Rightarrow> string list" where
  "union_labels cs ls = (if cs = ls then cs else sort (remdups (cs @ ls)))"

definition frame_op_series :: "(fl \<Rightarrow> fl \<Rightarrow> fl) \<Rightarrow> frame \<Rightarrow> series \<Rightarrow> frame" where
  "frame_op_series op f s =
     (let u = union_labels (columns f) (map fst s)
      in \<lparr>columns = u, index = index f,
          data = map (\<lambda>r. map (\<lambda>c. op (cell_at (columns f) r c) (series_get s c)) u)
                   (data f)\<rparr>)"

definition reindex_like :: "frame \<Rightarrow> frame \<Rightarrow> frame" where
  "reindex_like g f =
     \<lparr>columns = columns f, index = index f,
      data = map (\<lambda>r. map (\<lambda>c. cell_at (columns g) r c) (columns f)) (data g)\<rparr>"

definition inplace :: "(fl \<Rightarrow> fl \<Rightarrow> fl) \<Rightarrow> frame \<Rightarrow> series \<Rightarrow> frame" where
  "inplace op f s = reindex_like (frame_op_series op f s) f"

section \<open>Loading and filtering (cells 3 and 37)\<close>

definition bpx_vars :: "string list" where
  "bpx_vars = [''BPXSY1'', ''BPXSY2'', ''BPXSY3'', ''BPXDI1'', ''BPXDI2'', ''BPXDI3'']"

definition bmx_vars :: "string list" where
  "bmx_vars = [''BMXWT'', ''BMXHT'', ''BMXBMI'', ''BMXLEG'', ''BMXARML'', ''BMXARMC'',
     ''BMXWAIST'']"

text \<open>\<open>da = df.loc[:, bpx_vars + ["SEQN", "BPXPLS"]].dropna()\<close>\<close>

definition make_da :: "frame \<Rightarrow> error + frame" where
  "make_da df =
     (case loc_cols df (bpx_vars @ [''SEQN'', ''BPXPLS'']) of
        Inl e \<Rightarrow> Inl e
      | Inr t \<Rightarrow> Inr (dropna t))"

text \<open>\<open>bmx = da.loc[:, bmx_vars]; bmx = bmx.dropna()\<close>\<close>

definition make_bmx :: "frame \<Rightarrow> error + frame" where
  "make_bmx da =
     (case loc_cols da bmx_vars of
        Inl e \<Rightarrow> Inl e
      | Inr bmx \<Rightarrow> Inr (dropna bmx))"

text \<open>
  The reading of the filter to compare with: the rows of a table that have no missing
  cell in the columns \<open>sel\<close>, in their order, each cut down to \<open>sel\<close>.
\<close>

definition complete_rows :: "frame \<Rightarrow> string list \<Rightarrow> (nat \<times> fl list) list" where
  "complete_rows f sel =
     map (\<lambda>(i, r). (i, map (\<lambda>c. r ! pos c (columns f)) sel))
       (filter (\<lambda>(i, r). \<forall>c \<in> set sel. r ! pos c (columns f) \<noteq> NaN)
          (zip (index f) (data f)))"

section \<open>Correlation matrix (cells 5 and 39)\<close>

text \<open>\<open>f.T\<close> as an array: one row per column of the table.\<close>

definition frame_T :: "frame \<Rightarrow> fl list list" where
  "frame_T f = map (\<lambda>j. map (\<lambda>r. r ! j) (data f)) [0..<length (columns f)]"

definition average :: "fl list \<Rightarrow> fl" where
  "average xs = r_div (r_sum xs) (Fin (real (length xs)))"

text \<open>
  \<open>np.cov(X)\<close>, one variable per row: centre each row, take all the products of two
  rows, and scale by \<open>1 / (N - 1)\<close>, with \<open>N - 1\<close> replaced by zero when it is not
  positive.
\<close>

definition cov :: "fl list list \<Rightarrow> fl list list" where
  "cov X =
     (let N = (case X of [] \<Rightarrow> 0 | x # _ \<Rightarrow> length x);
          fact = (if N \<le> 1 then 0 else real N - 1);
          Xc = map (\<lambda>x. map (\<lambda>v. r_sub v (average x)) x) X
      in map (\<lambda>x. map (\<lambda>y. r_mul (r_sum (map2 r_mul x y)) (r_div (Fin 1) (Fin fact))) Xc)
           Xc)"

text \<open>
  \<open>np.corrcoef(X)\<close>: the covariance matrix with row \<open>i\<close> and then column \<open>j\<close> divided by
  the square roots of the diagonal, clipped to \<open>[-1, 1]\<close>. (For a single variable numpy
  returns the one entry as a scalar; the notebook passes six and seven variables.)
\<close>

definition corrcoef :: "fl list list \<Rightarrow> fl list list" where
  "corrcoef X =
     (let c = cov X;
          stddev = map (\<lambda>i. r_sqrt (c ! i ! i)) [0..<length c]
      in map (\<lambda>i. map (\<lambda>j. clip1 (r_div (r_div (c ! i ! j) (stddev ! i)) (stddev ! j)))
                   [0..<length c])
           [0..<length c])"

text \<open>\<open>bpx_cor = np.corrcoef(da.loc[:, bpx_vars].T)\<close>\<close>

definition bpx_cor :: "frame \<Rightarrow> error + fl list list" where
  "bpx_cor da =
     (case loc_cols da bpx_vars of
        Inl e \<Rightarrow> Inl e
      | Inr t \<Rightarrow> Inr (corrcoef (frame_T t)))"

text \<open>\<open>bmx_cor = np.corrcoef(bmx.T)\<close>\<close>

definition bmx_cor :: "frame \<Rightarrow> fl list list" where
  "bmx_cor bmx = corrcoef (frame_T bmx)"

text \<open>
  The covariance matrices that \<open>np.corrcoef\<close> computes first in these two calls
  (\<open>c = cov(x)\<close>); their diagonals are the variances the entries are divided by.
\<close>

definition bpx_cov :: "frame \<Rightarrow> error + fl list list" where
  "bpx_cov da =
     (case loc_cols da bpx_vars of
        Inl e \<Rightarrow> Inl e
      | Inr t \<Rightarrow> Inr (cov (frame_T t)))"

definition bmx_cov :: "frame \<Rightarrow> fl list list" where
  "bmx_cov bmx = cov (frame_T bmx)"

section \<open>Sorting the eigenvalues (cell 7) and the printed proportions (cells 13 and 41)\<close>

text \<open>
  The order numpy sorts floats by: increasing, infinities at the ends, \<open>NaN\<close> last.
  \<open>np.argsort\<close> returns the positions in that order (ties are kept here in their
  original order).
\<close>

fun sort_rank :: "fl \<Rightarrow> nat \<times> real" where
  "sort_rank NegInf = (0, 0)"
| "sort_rank (Fin a) = (1, a)"
| "sort_rank PosInf = (2, 0)"
| "sort_rank NaN = (3, 0)"

definition argsort :: "fl list \<Rightarrow> nat list" where
  "argsort xs = sort_key (\<lambda>i. sort_rank (xs ! i)) [0..<length xs]"

text \<open>
  \<open>v[ii]\<close> and \<open>m[:, ii]\<close> for a list of positions \<open>ii\<close>; a position out of range
  raises.
\<close>

definition take_idx :: "'a list \<Rightarrow> nat list \<Rightarrow> error + 'a list" where
  "take_idx v ii =
     (if list_all (\<lambda>i. i < length v) ii then Inr (map (\<lambda>i. v ! i) ii) else Inl IndexError)"

definition take_cols :: "'a list list \<Rightarrow> nat list \<Rightarrow> error + 'a list list" where
  "take_cols m ii =
     (if list_all (\<lambda>row. list_all (\<lambda>i. i < length row) ii) m
      then Inr (map (\<lambda>row. map (\<lambda>i. row ! i) ii) m) else Inl IndexError)"

definition mat_col :: "'a list list \<Rightarrow> nat \<Rightarrow> 'a list" where
  "mat_col m j = map (\<lambda>row. row ! j) m"

text \<open>\<open>ii = np.argsort(eiv)[::-1]; eiv = eiv[ii]; eig = eig[:, ii]\<close>\<close>

definition sort_ii :: "fl list \<Rightarrow> nat list" where
  "sort_ii eiv = rev (argsort eiv)"

definition sort_eig :: "fl list \<Rightarrow> fl list list \<Rightarrow> error + fl list \<times> fl list list" where
  "sort_eig eiv eig =
     (let ii = sort_ii eiv
      in case take_idx eiv ii of
           Inl e \<Rightarrow> Inl e
         | Inr eiv' \<Rightarrow> (case take_cols eig ii of Inl e \<Rightarrow> Inl e | Inr eig' \<Rightarrow> Inr (eiv', eig')))"

text \<open>The comparison \<open>a <= b\<close> of two floats: false when either is \<open>NaN\<close>.\<close>

fun fl_le :: "fl \<Rightarrow> fl \<Rightarrow> bool" where
  "fl_le NaN _ = False"
| "fl_le _ NaN = False"
| "fl_le NegInf _ = True"
| "fl_le _ PosInf = True"
| "fl_le (Fin a) (Fin b) = (a \<le> b)"
| "fl_le _ _ = False"

text \<open>\<open>eiv**2 / np.sum(eiv**2)\<close>\<close>

definition var_explained :: "fl list \<Rightarrow> fl list" where
  "var_explained eiv =
     (let sq = map (\<lambda>x. r_mul x x) eiv
      in map (\<lambda>q. r_div q (r_sum sq)) sq)"

section \<open>Standardising and scoring (cell 15)\<close>

text \<open>
  The notebook's variables name objects in a store; an object is a table or an array.
  A new object gets the next free address, so it shares nothing with the objects made
  before it.
\<close>

datatype obj = Frame frame | Array "fl list list"

record state =
  heap :: "obj list"
  env :: "string \<Rightarrow> nat option"

definition lookup :: "state \<Rightarrow> string \<Rightarrow> error + nat" where
  "lookup s x =
     (case env s x of
        None \<Rightarrow> Inl (NameError x)
      | Some a \<Rightarrow> if a < length (heap s) then Inr a else Inl (NameError x))"

definition lookup_frame :: "state \<Rightarrow> string \<Rightarrow> error + nat \<times> frame" where
  "lookup_frame s x =
     (case lookup s x of
        Inl e \<Rightarrow> Inl e
      | Inr a \<Rightarrow> (case heap s ! a of Frame f \<Rightarrow> Inr (a, f) | Array m \<Rightarrow> Inl (AttributeError x)))"

definition lookup_matrix :: "state \<Rightarrow> string \<Rightarrow> error + fl list list" where
  "lookup_matrix s x =
     (case lookup s x of
        Inl e \<Rightarrow> Inl e
      | Inr a \<Rightarrow> (case heap s ! a of Frame f \<Rightarrow> Inr (data f) | Array m \<Rightarrow> Inr m))"

definition bind_new :: "state \<Rightarrow> string \<Rightarrow> obj \<Rightarrow> state" where
  "bind_new s x v = s\<lparr>heap := heap s @ [v], env := (env s)(x \<mapsto> length (heap s))\<rparr>"

definition put :: "state \<Rightarrow> nat \<Rightarrow> obj \<Rightarrow> state" where
  "put s a v = s\<lparr>heap := (heap s)[a := v]\<rparr>"

text \<open>\<open>ds = da.loc[:, bpx_vars]\<close>\<close>

definition ds_select :: "state \<Rightarrow> error + state" where
  "ds_select s =
     (case lookup_frame s ''da'' of
        Inl e \<Rightarrow> Inl e
      | Inr (a, da) \<Rightarrow>
          (case loc_cols da bpx_vars of
             Inl e \<Rightarrow> Inl e
           | Inr t \<Rightarrow> Inr (bind_new s ''ds'' (Frame t))))"

text \<open>\<open>ds -= ds.mean(0)\<close>\<close>

definition ds_center :: "state \<Rightarrow> error + state" where
  "ds_center s =
     (case lookup_frame s ''ds'' of
        Inl e \<Rightarrow> Inl e
      | Inr (d, ds) \<Rightarrow> Inr (put s d (Frame (inplace fl_sub ds (mean0 ds)))))"

text \<open>\<open>ds /= da.std(0)\<close>\<close>

definition ds_scale :: "state \<Rightarrow> error + state" where
  "ds_scale s =
     (case lookup_frame s ''ds'' of
        Inl e \<Rightarrow> Inl e
      | Inr (d, ds) \<Rightarrow>
          (case lookup_frame s ''da'' of
             Inl e \<Rightarrow> Inl e
           | Inr (a, da) \<Rightarrow> Inr (put s d (Frame (inplace fl_div ds (std0 da))))))"

text \<open>
  \<open>np.dot(A, B)\<close> for two matrices: the rows of \<open>A\<close> must be as long as \<open>B\<close> has rows.
\<close>

definition dot :: "fl list list \<Rightarrow> fl list list \<Rightarrow> error + fl list list" where
  "dot A B =
     (if list_all (\<lambda>r. length r = length B) A
      then Inr (map (\<lambda>r. map (\<lambda>j. fl_sum (map2 fl_mul r (mat_col B j)))
                            [0..<(case B of [] \<Rightarrow> 0 | b # _ \<Rightarrow> length b)]) A)
      else Inl ValueError)"

text \<open>\<open>scores = np.dot(ds, eig)\<close>\<close>

definition scores_project :: "state \<Rightarrow> error + state" where
  "scores_project s =
     (case lookup_matrix s ''ds'' of
        Inl e \<Rightarrow> Inl e
      | Inr A \<Rightarrow>
          (case lookup_matrix s ''eig'' of
             Inl e \<Rightarrow> Inl e
           | Inr B \<Rightarrow>
               (case dot A B of
                  Inl e \<Rightarrow> Inl e
                | Inr m \<Rightarrow> Inr (bind_new s ''scores'' (Array m)))))"

definition seq :: "('a \<Rightarrow> error + 'a) \<Rightarrow> ('a \<Rightarrow> error + 'a) \<Rightarrow> 'a \<Rightarrow> error + 'a" where
  "seq p q s = (case p s of Inl e \<Rightarrow> Inl e | Inr s' \<Rightarrow> q s')"

definition standardize :: "state \<Rightarrow> error + state" where
  "standardize = seq ds_select (seq ds_center ds_scale)"

definition cell15 :: "state \<Rightarrow> error + state" where
  "cell15 = seq standardize scores_project"

text \<open>
  The reading of the standardisation to compare with: every selected cell less the mean
  of its column, over the standard deviation of its column in the filtered table.
\<close>

definition standardized :: "frame \<Rightarrow> frame" where
  "standardized da =
     \<lparr>columns = bpx_vars, index = index da,
      data = map (\<lambda>r. map (\<lambda>c. fl_div (fl_sub (r ! pos c (columns da)) (nanmean (column da c)))
                                     (nanstd (column da c))) bpx_vars)
               (data da)\<rparr>"

section \<open>Readings to compare the correlation matrix with\<close>

text \<open>An entry that is \<open>NaN\<close> or a number between \<open>-1\<close> and \<open>1\<close>.\<close>

fun in_unit_range :: "fl \<Rightarrow> bool" where
  "in_unit_range (Fin r) \<longleftrightarrow> - 1 \<le> r \<and> r \<le> 1"
| "in_unit_range NaN \<longleftrightarrow> True"
| "in_unit_range _ \<longleftrightarrow> False"

section \<open>Example tables\<close>

text \<open>
  A loaded blood-pressure table with one more column than the notebook selects. The
  second row lacks a selected measurement, the third lacks only the unselected one.
\<close>

definition ex_df :: frame where
  "ex_df = \<lparr>columns = [''SEQN'', ''BPXPLS'', ''BPXML1'', ''BPXSY1'', ''BPXDI1'', ''BPXSY2'',
                ''BPXDI2'', ''BPXSY3'', ''BPXDI3''],
            index = [0, 1, 2],
            data = [[Fin 83732, Fin 76, Fin 140, Fin 128, Fin 70, Fin 124, Fin 64, Fin 116, Fin 62],
                    [Fin 83733, Fin 72, Fin 170, Fin 146, Fin 88, NaN, Fin 84, Fin 134, Fin 82],
                    [Fin 83734, Fin 56, NaN, Fin 138, Fin 46, Fin 132, Fin 44, Fin 136, Fin 46]]\<rparr>"

definition ex_bmx_df :: frame where
  "ex_bmx_df = \<lparr>columns = [''SEQN'', ''BMXWT'', ''BMXHT'', ''BMXBMI'', ''BMXLEG'', ''BMXARML'',
                    ''BMXARMC'', ''BMXWAIST''],
                index = [0, 1],
                data = [[Fin 83732, Fin 94, Fin 184, Fin 28, Fin 43, Fin 43, Fin 36, Fin 101],
                        [Fin 83733, Fin 90, Fin 171, Fin 31, Fin 38, Fin 40, NaN, Fin 108]]\<rparr>"

text \<open>An unsorted eigen-decomposition of a 3 by 3 matrix: eigenvalues and eigenvector columns.\<close>

definition ex_eiv :: "fl list" where
  "ex_eiv = [Fin 1, Fin 3, Fin 2]"

definition ex_eig :: "fl list list" where
  "ex_eig = [[Fin 11, Fin 12, Fin 13],
             [Fin 21, Fin 22, Fin 23],
             [Fin 31, Fin 32, Fin 33]]"

text \<open>
  The filtered table of \<open>ex_df\<close>, a variant whose last blood-pressure column is
  constant, and a notebook state about to run cell 15: \<open>da\<close> names the filtered table,
  \<open>eig\<close> a 6 by 6 matrix.
\<close>

definition ex_da :: frame where
  "ex_da = \<lparr>columns = bpx_vars @ [''SEQN'', ''BPXPLS''],
            index = [0, 2],
            data = [[Fin 128, Fin 124, Fin 116, Fin 70, Fin 64, Fin 62, Fin 83732, Fin 76],
                    [Fin 138, Fin 132, Fin 136, Fin 46, Fin 44, Fin 46, Fin 83734, Fin 56]]\<rparr>"

definition ex_da_const :: frame where
  "ex_da_const = \<lparr>columns = bpx_vars @ [''SEQN'', ''BPXPLS''],
            index = [0, 2],
            data = [[Fin 128, Fin 124, Fin 116, Fin 70, Fin 64, Fin 62, Fin 83732, Fin 76],
                    [Fin 138, Fin 132, Fin 136, Fin 46, Fin 44, Fin 62, Fin 83734, Fin 56]]\<rparr>"

definition ex_eig6 :: "fl list list" where
  "ex_eig6 = [[Fin 1, Fin 0, Fin 0, Fin 0, Fin 0, Fin 0],
              [Fin 0, Fin 1, Fin 0, Fin 0, Fin 0, Fin 0],
              [Fin 0, Fin 0, Fin 1, Fin 0, Fin 0, Fin 0],
              [Fin 0, Fin 0, Fin 0, Fin 1, Fin 0, Fin 0],
              [Fin 0, Fin 0, Fin 0, Fin 0, Fin 1, Fin 0],
              [Fin 0, Fin 0, Fin 0, Fin 0, Fin 0, Fin 1]]"

definition ex_state :: "frame \<Rightarrow> state" where
  "ex_state da = \<lparr>heap = [Frame da, Array ex_eig6],
                  env = [''da'' \<mapsto> 0, ''eig'' \<mapsto> 1]\<rparr>"

text \<open>A filtered body-measures table with two complete rows.\<close>

definition ex_bmx :: frame where
  "ex_bmx = \<lparr>columns = bmx_vars,
             index = [0, 1],
             data = [[Fin 94, Fin 184, Fin 28, Fin 43, Fin 43, Fin 36, Fin 101],
                     [Fin 90, Fin 171, Fin 31, Fin 38, Fin 40, Fin 33, Fin 108]]\<rparr>"

text \<open>
  A filtered blood-pressure table with three complete rows in which every column varies.
\<close>

definition ex_da3 :: frame where
  "ex_da3 = \<lparr>columns = bpx_vars @ [''SEQN'', ''BPXPLS''],
             index = [0, 1, 2],
             data = [[Fin 110, Fin 120, Fin 112, Fin 70, Fin 68, Fin 66, Fin 83732, Fin 60],
                     [Fin 113, Fin 125, Fin 118, Fin 72, Fin 74, Fin 70, Fin 83733, Fin 72],
                     [Fin 116, Fin 124, Fin 121, Fin 74, Fin 71, Fin 74, Fin 83734, Fin 66]]\<rparr>"

section \<open>Properties of the missing-value filter\<close>

lemma loc_cols_ok:
  "set names \<subseteq> set (columns f) \<Longrightarrow>
   loc_cols f names = Inr \<lparr>columns = names, index = index f,
       data = map (\<lambda>r. map (\<lambda>c. r ! pos c (columns f)) names) (data f)\<rparr>"
proof -
  assume "set names \<subseteq> set (columns f)"
  then have "filter (\<lambda>c. c \<notin> set (columns f)) names = []"
    by (auto simp: filter_empty_conv)
  then show ?thesis by (simp add: loc_cols_def)
qed

lemma zip_map_filter_rows:
  "length is = length rs \<Longrightarrow>
   filter (\<lambda>(i, r). P r) (zip is (map g rs)) =
   map (\<lambda>(i, r). (i, g r)) (filter (\<lambda>(i, r). P (g r)) (zip is rs))"
proof (induction "is" rs rule: list_induct2)
  case Nil
  then show ?case by simp
next
  case (Cons i "is" r rs)
  then show ?case by simp
qed

lemma zip_fst_snd: "zip (map fst ps) (map snd ps) = ps"
  by (induction ps) auto

lemma loc_dropna_rows:
  assumes "length (index f) = length (data f)" and "set sel \<subseteq> set (columns f)"
  shows "\<exists>t. loc_cols f sel = Inr t \<and> columns (dropna t) = sel \<and>
           zip (index (dropna t)) (data (dropna t)) = complete_rows f sel"
proof -
  let ?g = "\<lambda>r. map (\<lambda>c. r ! pos c (columns f)) sel"
  let ?t = "\<lparr>columns = sel, index = index f, data = map ?g (data f)\<rparr>"
  have t: "loc_cols f sel = Inr ?t" using assms(2) by (rule loc_cols_ok)
  have nan: "(\<lambda>(i::nat, r). NaN \<notin> set (?g r)) =
             (\<lambda>(i, r). \<forall>c \<in> set sel. r ! pos c (columns f) \<noteq> NaN)"
    by (force simp: fun_eq_iff image_iff)
  have "zip (index (dropna ?t)) (data (dropna ?t)) =
        filter (\<lambda>(i, r). NaN \<notin> set r) (zip (index f) (map ?g (data f)))"
    by (simp add: dropna_def Let_def zip_fst_snd)
  also have "\<dots> = map (\<lambda>(i, r). (i, ?g r))
        (filter (\<lambda>(i, r). NaN \<notin> set (?g r)) (zip (index f) (data f)))"
    by (rule zip_map_filter_rows [OF assms(1)])
  also have "\<dots> = complete_rows f sel"
    unfolding complete_rows_def nan ..
  finally have "zip (index (dropna ?t)) (data (dropna ?t)) = complete_rows f sel" .
  moreover have "columns (dropna ?t) = sel" by (simp add: dropna_def Let_def)
  ultimately show ?thesis using t by blast
qed

text \<open>
  Claim C7. Both filters (\<open>da\<close> in cell 3, \<open>bmx\<close> in cell 37) succeed whenever the
  selected columns exist, and return exactly the rows of the loaded table that have no
  missing cell in the selected columns: the same row labels and cells, in the same
  order, and nothing else. A row with a missing selected cell is absent from the result
  and no error is returned for it.
\<close>

theorem missing_value_filter:
  "(length (index df) = length (data df) \<and>
    set (bpx_vars @ [''SEQN'', ''BPXPLS'']) \<subseteq> set (columns df) \<longrightarrow>
    (\<exists>da. make_da df = Inr da \<and> columns da = bpx_vars @ [''SEQN'', ''BPXPLS''] \<and>
       zip (index da) (data da) = complete_rows df (bpx_vars @ [''SEQN'', ''BPXPLS'']))) \<and>
   (length (index df') = length (data df') \<and> set bmx_vars \<subseteq> set (columns df') \<longrightarrow>
    (\<exists>bmx. make_bmx df' = Inr bmx \<and> columns bmx = bmx_vars \<and>
       zip (index bmx) (data bmx) = complete_rows df' bmx_vars))"
proof (intro conjI impI)
  assume "length (index df) = length (data df) \<and>
    set (bpx_vars @ [''SEQN'', ''BPXPLS'']) \<subseteq> set (columns df)"
  then obtain t where "loc_cols df (bpx_vars @ [''SEQN'', ''BPXPLS'']) = Inr t"
    and "columns (dropna t) = bpx_vars @ [''SEQN'', ''BPXPLS'']"
    and "zip (index (dropna t)) (data (dropna t)) =
         complete_rows df (bpx_vars @ [''SEQN'', ''BPXPLS''])"
    using loc_dropna_rows [of df "bpx_vars @ [''SEQN'', ''BPXPLS'']"] by blast
  then show "\<exists>da. make_da df = Inr da \<and> columns da = bpx_vars @ [''SEQN'', ''BPXPLS''] \<and>
       zip (index da) (data da) = complete_rows df (bpx_vars @ [''SEQN'', ''BPXPLS''])"
    by (simp add: make_da_def)
next
  assume "length (index df') = length (data df') \<and> set bmx_vars \<subseteq> set (columns df')"
  then obtain t where "loc_cols df' bmx_vars = Inr t"
    and "columns (dropna t) = bmx_vars"
    and "zip (index (dropna t)) (data (dropna t)) = complete_rows df' bmx_vars"
    using loc_dropna_rows [of df' bmx_vars] by blast
  then show "\<exists>bmx. make_bmx df' = Inr bmx \<and> columns bmx = bmx_vars \<and>
       zip (index bmx) (data bmx) = complete_rows df' bmx_vars"
    by (simp add: make_bmx_def)
qed

theorem missing_value_filter_witness:
  "(length (index ex_df) = length (data ex_df) \<and>
    set (bpx_vars @ [''SEQN'', ''BPXPLS'']) \<subseteq> set (columns ex_df)) \<and>
   (\<exists>da. make_da ex_df = Inr da \<and>
      zip (index da) (data da) =
        [(0, [Fin 128, Fin 124, Fin 116, Fin 70, Fin 64, Fin 62, Fin 83732, Fin 76]),
         (2, [Fin 138, Fin 132, Fin 136, Fin 46, Fin 44, Fin 46, Fin 83734, Fin 56])]) \<and>
   (length (index ex_bmx_df) = length (data ex_bmx_df) \<and>
    set bmx_vars \<subseteq> set (columns ex_bmx_df)) \<and>
   (\<exists>bmx. make_bmx ex_bmx_df = Inr bmx \<and>
      zip (index bmx) (data bmx) =
        [(0, [Fin 94, Fin 184, Fin 28, Fin 43, Fin 43, Fin 36, Fin 101])])"
proof -
  have h1: "length (index ex_df) = length (data ex_df) \<and>
    set (bpx_vars @ [''SEQN'', ''BPXPLS'']) \<subseteq> set (columns ex_df)"
    by (simp add: ex_df_def bpx_vars_def)
  have h2: "length (index ex_bmx_df) = length (data ex_bmx_df) \<and>
    set bmx_vars \<subseteq> set (columns ex_bmx_df)"
    by (simp add: ex_bmx_df_def bmx_vars_def)
  have r1: "complete_rows ex_df (bpx_vars @ [''SEQN'', ''BPXPLS'']) =
        [(0, [Fin 128, Fin 124, Fin 116, Fin 70, Fin 64, Fin 62, Fin 83732, Fin 76]),
         (2, [Fin 138, Fin 132, Fin 136, Fin 46, Fin 44, Fin 46, Fin 83734, Fin 56])]"
    by (simp add: complete_rows_def ex_df_def bpx_vars_def pos_def)
  have r2: "complete_rows ex_bmx_df bmx_vars =
        [(0, [Fin 94, Fin 184, Fin 28, Fin 43, Fin 43, Fin 36, Fin 101])]"
    by (simp add: complete_rows_def ex_bmx_df_def bmx_vars_def pos_def)
  from missing_value_filter [of ex_df ex_bmx_df] h1 h2 r1 r2 show ?thesis
    by auto
qed

section \<open>Properties of the sorting step\<close>

lemma sort_rank_le: "a \<noteq> NaN \<Longrightarrow> b \<noteq> NaN \<Longrightarrow> sort_rank a \<le> sort_rank b \<longleftrightarrow> fl_le a b"
  by (cases a; cases b) (auto simp: less_eq_prod_def)

lemma mset_argsort: "mset (argsort xs) = mset [0..<length xs]"
  by (simp add: argsort_def)

lemma set_sort_ii: "set (sort_ii xs) = {0..<length xs}"
  by (simp add: sort_ii_def argsort_def)

lemma length_sort_ii: "length (sort_ii xs) = length xs"
  by (simp add: sort_ii_def argsort_def)

lemma sorted_sort_ii:
  "sorted_wrt (\<lambda>i j. sort_rank (xs ! j) \<le> sort_rank (xs ! i)) (sort_ii xs)"
proof -
  have "sorted (map (\<lambda>i. sort_rank (xs ! i)) (argsort xs))"
    unfolding argsort_def by (rule sorted_sort_key)
  then have "sorted_wrt (\<lambda>i j. sort_rank (xs ! i) \<le> sort_rank (xs ! j)) (argsort xs)"
    by (simp add: sorted_wrt_map)
  then show ?thesis
    by (simp add: sort_ii_def sorted_wrt_rev)
qed

lemma take_idx_sort_ii: "take_idx xs (sort_ii xs) = Inr (map (\<lambda>i. xs ! i) (sort_ii xs))"
  by (simp add: take_idx_def list_all_iff set_sort_ii)

lemma take_cols_sort_ii:
  "list_all (\<lambda>row. length row = length xs) m \<Longrightarrow>
   take_cols m (sort_ii xs) = Inr (map (\<lambda>row. map (\<lambda>i. row ! i) (sort_ii xs)) m)"
  by (simp add: take_cols_def list_all_iff set_sort_ii)

lemma descending_sort_ii:
  assumes "NaN \<notin> set xs"
  shows "sorted_wrt (\<lambda>a b. fl_le b a) (map (\<lambda>i. xs ! i) (sort_ii xs))"
proof -
  have in_range: "\<And>i. i \<in> set (sort_ii xs) \<Longrightarrow> xs ! i \<noteq> NaN"
    using assms by (auto simp: set_sort_ii in_set_conv_nth)
  have "sorted_wrt (\<lambda>i j. fl_le (xs ! j) (xs ! i)) (sort_ii xs)"
    using sorted_sort_ii [of xs]
    by (rule sorted_wrt_mono_rel [rotated]) (simp add: sort_rank_le in_range)
  then show ?thesis by (simp add: sorted_wrt_map)
qed

text \<open>
  Claim C5. For eigenvalues without \<open>NaN\<close> and an eigenvector matrix with one column
  per eigenvalue, the sorting step succeeds; the new eigenvalue sequence is
  non-increasing; the positions \<open>ii\<close> are a permutation of \<open>0, ..., n - 1\<close>; and at every
  position \<open>j\<close> both the new eigenvalue and the new eigenvector column are the old ones
  at position \<open>ii[j]\<close>, so each column stays with its eigenvalue.
\<close>

theorem sort_eig_descending_paired:
  assumes "NaN \<notin> set eiv" and "list_all (\<lambda>row. length row = length eiv) eig"
  shows "\<exists>eiv' eig'. sort_eig eiv eig = Inr (eiv', eig') \<and>
           sorted_wrt (\<lambda>a b. fl_le b a) eiv' \<and>
           mset (sort_ii eiv) = mset [0..<length eiv] \<and>
           length eiv' = length eiv \<and>
           (\<forall>j < length eiv. eiv' ! j = eiv ! (sort_ii eiv ! j) \<and>
                              mat_col eig' j = mat_col eig (sort_ii eiv ! j))"
proof -
  let ?ii = "sort_ii eiv"
  let ?eiv' = "map (\<lambda>i. eiv ! i) ?ii"
  let ?eig' = "map (\<lambda>row. map (\<lambda>i. row ! i) ?ii) eig"
  have run: "sort_eig eiv eig = Inr (?eiv', ?eig')"
    using assms(2) by (simp add: sort_eig_def Let_def take_idx_sort_ii take_cols_sort_ii)
  have desc: "sorted_wrt (\<lambda>a b. fl_le b a) ?eiv'"
    using assms(1) by (rule descending_sort_ii)
  have perm: "mset ?ii = mset [0..<length eiv]"
    by (simp add: sort_ii_def mset_argsort)
  have pair: "\<forall>j < length eiv. ?eiv' ! j = eiv ! (?ii ! j) \<and>
                 mat_col ?eig' j = mat_col eig (?ii ! j)"
    by (simp add: mat_col_def length_sort_ii)
  show ?thesis using run desc perm pair by (simp add: length_sort_ii)
qed

lemma sort_ii_ex: "sort_ii ex_eiv = [1, 2, 0]"
  by (simp add: sort_ii_def argsort_def ex_eiv_def upt_rec less_eq_prod_def)

theorem sort_eig_descending_paired_witness:
  "NaN \<notin> set ex_eiv \<and> list_all (\<lambda>row. length row = length ex_eiv) ex_eig \<and>
   sort_eig ex_eiv ex_eig =
     Inr ([Fin 3, Fin 2, Fin 1],
          [[Fin 12, Fin 13, Fin 11], [Fin 22, Fin 23, Fin 21], [Fin 32, Fin 33, Fin 31]]) \<and>
   (\<exists>eiv' eig'. sort_eig ex_eiv ex_eig = Inr (eiv', eig') \<and>
      sorted_wrt (\<lambda>a b. fl_le b a) eiv' \<and>
      (\<forall>j < length ex_eiv. eiv' ! j = ex_eiv ! (sort_ii ex_eiv ! j) \<and>
                            mat_col eig' j = mat_col ex_eig (sort_ii ex_eiv ! j)))"
proof -
  have h1: "NaN \<notin> set ex_eiv" by (simp add: ex_eiv_def)
  have h2: "list_all (\<lambda>row. length row = length ex_eiv) ex_eig"
    by (simp add: ex_eiv_def ex_eig_def)
  have run: "sort_eig ex_eiv ex_eig =
     Inr ([Fin 3, Fin 2, Fin 1],
          [[Fin 12, Fin 13, Fin 11], [Fin 22, Fin 23, Fin 21], [Fin 32, Fin 33, Fin 31]])"
    by (simp add: sort_eig_def sort_ii_ex take_idx_def take_cols_def Let_def)
       (simp add: ex_eiv_def ex_eig_def)
  from sort_eig_descending_paired [OF h1 h2] h1 h2 run show ?thesis
    by blast
qed

section \<open>Properties of the rounding\<close>

lemma pow2_pos: "0 < pow2 e"
  by (simp add: pow2_def)

lemma pow2_powr: "pow2 e = 2 powr (real_of_int e)"
  by (simp add: pow2_def powr_real_of_int inverse_eq_divide)

lemma pow2_add: "pow2 (a + b) = pow2 a * pow2 b"
  by (simp add: pow2_powr powr_add)

lemma pow2_le_iff: "pow2 a \<le> pow2 b \<longleftrightarrow> a \<le> b"
  by (simp add: pow2_powr)

lemma pow2_less_iff: "pow2 a < pow2 b \<longleftrightarrow> a < b"
  by (simp add: pow2_powr)

lemma pow2_nat: "0 \<le> j \<Longrightarrow> pow2 j = of_int (2 ^ nat j)"
  by (simp add: pow2_def)

lemma floor_log_bounds:
  assumes "x \<noteq> 0"
  shows "pow2 \<lfloor>log 2 \<bar>x\<bar>\<rfloor> \<le> \<bar>x\<bar>" and "\<bar>x\<bar> < pow2 (\<lfloor>log 2 \<bar>x\<bar>\<rfloor> + 1)"
  using floor_log_eq_powr_iff [of "\<bar>x\<bar>" 2 "\<lfloor>log 2 \<bar>x\<bar>\<rfloor>"] assms
  by (simp_all add: pow2_powr)

lemma binade_eqI:
  assumes "pow2 e \<le> \<bar>x\<bar>" and "\<bar>x\<bar> < pow2 (e + 1)" and "- 1022 \<le> e"
  shows "binade x = e"
proof -
  have "0 < \<bar>x\<bar>" using assms(1) pow2_pos [of e] by linarith
  then have "\<lfloor>log 2 \<bar>x\<bar>\<rfloor> = e"
    using assms(1,2) by (simp add: floor_log_eq_powr_iff pow2_powr)
  then show ?thesis using assms(3) by (simp add: binade_def)
qed

lemma rne_of_int: "rne (of_int n) = n"
  by (simp add: rne_def)

lemma rne_near:
  assumes "\<bar>y - of_int m\<bar> < 1 / 2"
  shows "rne y = m"
proof (cases "of_int m \<le> y")
  case True
  then have "\<lfloor>y\<rfloor> = m" using assms by (intro floor_unique) auto
  then show ?thesis using assms True by (simp add: rne_def)
next
  case False
  then have f: "\<lfloor>y\<rfloor> = m - 1" using assms by (intro floor_unique) auto
  have "1 / 2 < y - of_int (m - 1)" using assms False by auto
  then show ?thesis using f by (simp add: rne_def Let_def)
qed

lemma round64_I:
  assumes "pow2 e \<le> \<bar>x\<bar>" and "\<bar>x\<bar> < pow2 (e + 1)" and "- 1022 \<le> e"
      and "\<bar>x / pow2 (e - 52) - of_int m\<bar> < 1 / 2"
      and "\<bar>of_int m * pow2 (e - 52)\<bar> < pow2 1024"
  shows "round64 x = Fin (of_int m * pow2 (e - 52))"
proof -
  have "x \<noteq> 0" using assms(1) pow2_pos [of e] by auto
  moreover have "binade x = e" using assms(1-3) by (rule binade_eqI)
  moreover have "rne (x / pow2 (e - 52)) = m" using assms(4) by (rule rne_near)
  ultimately show ?thesis using assms(5) by (simp add: round64_def Let_def)
qed

lemma round64_exact:
  assumes "n \<noteq> 0" and "\<bar>n\<bar> < 2 ^ 53" and "- 1074 \<le> k"
      and "\<bar>of_int n * pow2 k\<bar> < pow2 1024"
  shows "round64 (of_int n * pow2 k) = Fin (of_int n * pow2 k)"
proof -
  let ?x = "of_int n * pow2 k :: real"
  let ?b = "binade ?x"
  have x0: "?x \<noteq> 0" using assms(1) pow2_pos [of k] by simp
  have "\<bar>?x\<bar> = of_int \<bar>n\<bar> * pow2 k" using pow2_pos [of k] by (simp add: abs_mult)
  also have "\<dots> < of_int (2 ^ 53) * pow2 k"
    using assms(2) pow2_pos [of k] by (intro mult_strict_right_mono) (simp_all del: of_int_power)
  also have "\<dots> = pow2 (53 + k)" by (simp add: pow2_add pow2_nat)
  finally have "\<bar>?x\<bar> < pow2 (53 + k)" .
  with floor_log_bounds(1) [OF x0] have "pow2 \<lfloor>log 2 \<bar>?x\<bar>\<rfloor> < pow2 (53 + k)" by linarith
  then have "\<lfloor>log 2 \<bar>?x\<bar>\<rfloor> < 53 + k" by (simp add: pow2_less_iff)
  then have b: "?b \<le> 52 + k" using assms(3) by (simp add: binade_def)
  define j where "j = k - (?b - 52)"
  define q where "q = pow2 (?b - 52)"
  have j: "0 \<le> j" using b by (simp add: j_def)
  have qpos: "0 < q" by (simp add: q_def pow2_pos)
  have "pow2 k = pow2 j * q"
    unfolding j_def q_def pow2_add [symmetric] by simp
  then have pk: "pow2 k = 2 ^ nat j * q" using j by (simp add: pow2_nat)
  have xq: "?x = of_int (n * 2 ^ nat j) * q" by (simp add: pk)
  have quo: "?x / q = of_int (n * 2 ^ nat j)"
    unfolding xq using qpos by simp
  have r: "of_int (rne (?x / q)) * q = ?x"
    unfolding quo rne_of_int by (simp add: xq)
  show ?thesis
    unfolding round64_def Let_def q_def [symmetric] r using x0 assms(4) by simp
qed


lemma round64_0: "round64 0 = Fin 0"
  by (simp add: round64_def)

lemma round64_int:
  assumes "\<bar>n\<bar> < 2 ^ 53"
  shows "round64 (of_int n) = Fin (of_int n)"
proof (cases "n = 0")
  case True
  then show ?thesis by (simp add: round64_0)
next
  case False
  have "\<bar>real_of_int n\<bar> < 2 ^ 53" using assms by (metis of_int_abs of_int_less_numeral_power_cancel_iff)
  also have "(2::real) ^ 53 \<le> 2 ^ 1024" by (intro power_increasing) simp_all
  finally have "\<bar>of_int n * pow2 0\<bar> < pow2 1024" by (simp add: pow2_def)
  with round64_exact [OF False assms, of 0] show ?thesis by (simp add: pow2_def)
qed

lemma round64_half:
  assumes "\<bar>n\<bar> < 2 ^ 53"
  shows "round64 (of_int n / 2) = Fin (of_int n / 2)"
proof (cases "n = 0")
  case True
  then show ?thesis by (simp add: round64_0)
next
  case False
  have "\<bar>real_of_int n\<bar> < 2 ^ 53" using assms by (metis of_int_abs of_int_less_numeral_power_cancel_iff)
  also have "(2::real) ^ 53 \<le> 2 ^ 1024" by (intro power_increasing) simp_all
  finally have "\<bar>of_int n * pow2 (- 1)\<bar> < pow2 1024" by (simp add: pow2_def)
  with round64_exact [OF False assms, of "- 1"] show ?thesis by (simp add: pow2_def)
qed

lemma round64_numeral:
  "(numeral w :: int) < 2 ^ 53 \<Longrightarrow> round64 (numeral w) = Fin (numeral w)"
  "(numeral w :: int) < 2 ^ 53 \<Longrightarrow> round64 (- numeral w) = Fin (- numeral w)"
  "(numeral w :: int) < 2 ^ 53 \<Longrightarrow> round64 (numeral w / 2) = Fin (numeral w / 2)"
  "(numeral w :: int) < 2 ^ 53 \<Longrightarrow> round64 (- (numeral w / 2)) = Fin (- (numeral w / 2))"
  "round64 1 = Fin 1" "round64 (- 1) = Fin (- 1)"
  "round64 (1 / 2) = Fin (1 / 2)"
  using round64_int [of "numeral w"] round64_int [of "- numeral w"]
    round64_half [of "numeral w"] round64_half [of "- numeral w"]
    round64_int [of 1] round64_int [of "- 1"] round64_half [of 1]
  by simp_all

lemma round64_sixth: "round64 (1 / 6) = Fin (6004799503160661 / 36028797018963968)"
  using round64_I [of "- 3" "1 / 6" 6004799503160661] by (simp add: pow2_def)

lemma round64_two_thirds: "round64 (2 / 3) = Fin (6004799503160661 / 9007199254740992)"
  using round64_I [of "- 1" "2 / 3" 6004799503160661] by (simp add: pow2_def)


lemma rne_err: "\<bar>of_int (rne y) - y\<bar> \<le> 1 / 2"
proof -
  have "of_int \<lfloor>y\<rfloor> \<le> y" "y < of_int \<lfloor>y\<rfloor> + 1" by linarith+
  then show ?thesis by (auto simp: rne_def Let_def)
qed

lemma pow2_half: "pow2 (e - 53) = pow2 e / 2 ^ 53"
proof -
  have "pow2 e = pow2 (e - 53) * pow2 53" unfolding pow2_add [symmetric] by simp
  then show ?thesis by (simp add: pow2_def)
qed

lemma pow2_split52: "pow2 (e - 52) = 2 * pow2 (e - 53)"
proof -
  have "pow2 (e - 52) = pow2 (e - 53) * pow2 1" unfolding pow2_add [symmetric] by simp
  then show ?thesis by (simp add: pow2_def)
qed

lemma pow2_1024: "pow2 1024 = 2 * pow2 1023"
proof -
  have "pow2 1024 = pow2 1023 * pow2 1" unfolding pow2_add [symmetric] by simp
  then show ?thesis by (simp add: pow2_def)
qed

lemma round64_rel:
  assumes "pow2 (- 1022) \<le> \<bar>x\<bar>" and "\<bar>x\<bar> \<le> pow2 1023"
  shows "\<exists>r. round64 x = Fin r \<and> \<bar>r - x\<bar> \<le> \<bar>x\<bar> / 2 ^ 53"
proof -
  have x0: "x \<noteq> 0" using assms(1) pow2_pos [of "- 1022"] by auto
  define e where "e = \<lfloor>log 2 \<bar>x\<bar>\<rfloor>"
  have lo: "pow2 e \<le> \<bar>x\<bar>" and hi: "\<bar>x\<bar> < pow2 (e + 1)"
    unfolding e_def using floor_log_bounds [OF x0] by auto
  have "pow2 (- 1022) < pow2 (e + 1)" using assms(1) hi by linarith
  then have e: "- 1022 \<le> e" by (simp add: pow2_less_iff)
  then have b: "binade x = e" by (simp add: binade_def e_def)
  define q where "q = pow2 (e - 52)"
  have qpos: "0 < q" by (simp add: q_def pow2_pos)
  define r where "r = of_int (rne (x / q)) * q"
  have "r - x = (of_int (rne (x / q)) - x / q) * q"
    using qpos by (simp add: r_def left_diff_distrib)
  then have "\<bar>r - x\<bar> = \<bar>of_int (rne (x / q)) - x / q\<bar> * q"
    using qpos by (simp add: abs_mult)
  also have "\<dots> \<le> 1 / 2 * q"
    using rne_err [of "x / q"] qpos by (intro mult_right_mono) simp_all
  also have "\<dots> = pow2 e / 2 ^ 53" by (simp add: q_def pow2_split52 pow2_half)
  also have "\<dots> \<le> \<bar>x\<bar> / 2 ^ 53" using lo by (simp add: divide_right_mono)
  finally have err: "\<bar>r - x\<bar> \<le> \<bar>x\<bar> / 2 ^ 53" .
  have "\<bar>r\<bar> \<le> \<bar>x\<bar> + \<bar>x\<bar> / 2 ^ 53" using err by linarith
  also have "\<dots> < 2 * pow2 1023" using assms(2) pow2_pos [of 1023] by (simp add: field_simps)
  finally have "\<bar>r\<bar> < pow2 1024" by (simp add: pow2_1024)
  then have "round64 x = Fin r"
    using x0 by (simp add: round64_def Let_def b q_def [symmetric] r_def [symmetric])
  with err show ?thesis by blast
qed


lemma round64_rel_pos:
  assumes "pow2 (- 1022) \<le> x" and "x \<le> pow2 1023"
  shows "\<exists>r. round64 x = Fin r \<and> x * (1 - 1 / 2 ^ 53) \<le> r \<and> r \<le> x * (1 + 1 / 2 ^ 53)"
proof -
  have pos: "0 < x" using assms(1) pow2_pos [of "- 1022"] by linarith
  then have "pow2 (- 1022) \<le> \<bar>x\<bar>" "\<bar>x\<bar> \<le> pow2 1023" using assms by simp_all
  then obtain r where r: "round64 x = Fin r" "\<bar>r - x\<bar> \<le> \<bar>x\<bar> / 2 ^ 53"
    using round64_rel by blast
  have "\<bar>x\<bar> = x" using pos by simp
  with r(2) have "\<bar>r - x\<bar> \<le> x / 2 ^ 53" by (simp only:)
  then have d: "r - x \<le> x / 2 ^ 53" "x - r \<le> x / 2 ^ 53"
    unfolding abs_le_iff by linarith+
  have "x * (1 - 1 / 2 ^ 53) \<le> r" using d(2) by (simp add: algebra_simps)
  moreover have "r \<le> x * (1 + 1 / 2 ^ 53)" using d(1) by (simp add: algebra_simps)
  ultimately show ?thesis using r(1) by blast
qed

lemma pow2_mono: "a \<le> b \<Longrightarrow> pow2 a \<le> pow2 b"
  by (simp add: pow2_le_iff)

lemma sqrt_pow2_bounds:
  assumes "pow2 (- 1000) \<le> v" and "v \<le> pow2 1000"
  shows "pow2 (- 500) \<le> sqrt v" and "sqrt v \<le> pow2 500"
proof -
  have lo: "pow2 (- 1000) = (pow2 (- 500))\<^sup>2"
    unfolding power2_eq_square pow2_add [symmetric] by simp
  have hi: "pow2 1000 = (pow2 500)\<^sup>2"
    unfolding power2_eq_square pow2_add [symmetric] by simp
  show "pow2 (- 500) \<le> sqrt v"
    using assms(1) unfolding lo by (rule real_le_rsqrt)
  show "sqrt v \<le> pow2 500"
    using assms(2) pow2_pos [of 500] unfolding hi by (intro real_le_lsqrt) simp_all
qed

lemma unit_factors_bound:
  fixes a b c :: real
  assumes "1 - 1 / 2 ^ 53 \<le> a" "a \<le> 1 + 1 / 2 ^ 53"
      and "1 - 1 / 2 ^ 53 \<le> b" and "1 - 1 / 2 ^ 53 \<le> c"
  shows "1 - 1 / 2 ^ 50 \<le> b * c / (a * a)"
proof -
  have apos: "0 < a" using assms(1) by simp
  have "(1 - 1 / 2 ^ 50) * (a * a) \<le> (1 - 1 / 2 ^ 50) * ((1 + 1 / 2 ^ 53) * (1 + 1 / 2 ^ 53))"
    using assms(2) apos by (intro mult_left_mono mult_mono) simp_all
  also have "\<dots> \<le> (1 - 1 / 2 ^ 53) * (1 - 1 / 2 ^ 53)" by simp
  also have "\<dots> \<le> b * c" using assms(3,4) by (intro mult_mono) simp_all
  finally show ?thesis using apos by (simp add: pos_le_divide_eq)
qed

text \<open>
  The error of one rounding in general: half a unit in the last place of the binade of
  \<open>x\<close>, which is at most \<open>\<bar>x\<bar> / 2^53\<close> in the normal range and \<open>2^(-1075)\<close> below it.
\<close>

lemma round64_core:
  assumes "x \<noteq> 0"
  shows "\<exists>r. \<bar>r - x\<bar> \<le> pow2 (binade x - 53) \<and>
           (round64 x = Fin r \<and> \<bar>r\<bar> < pow2 1024 \<or>
            round64 x = signed_inf (0 < x) \<and> pow2 1024 \<le> \<bar>r\<bar>)"
proof -
  define q where "q = pow2 (binade x - 52)"
  have qpos: "0 < q" by (simp add: q_def pow2_pos)
  define r where "r = of_int (rne (x / q)) * q"
  have "r - x = (of_int (rne (x / q)) - x / q) * q"
    using qpos by (simp add: r_def left_diff_distrib)
  then have "\<bar>r - x\<bar> = \<bar>of_int (rne (x / q)) - x / q\<bar> * q"
    using qpos by (simp add: abs_mult)
  also have "\<dots> \<le> 1 / 2 * q"
    using rne_err [of "x / q"] qpos by (intro mult_right_mono) simp_all
  also have "\<dots> = pow2 (binade x - 53)" by (simp add: q_def pow2_split52)
  finally have err: "\<bar>r - x\<bar> \<le> pow2 (binade x - 53)" .
  have "round64 x = (if pow2 1024 \<le> \<bar>r\<bar> then signed_inf (0 < x) else Fin r)"
    using assms by (simp add: round64_def Let_def q_def [symmetric] r_def [symmetric])
  with err show ?thesis by (cases "pow2 1024 \<le> \<bar>r\<bar>") auto
qed

lemma binade_normal:
  assumes "pow2 (- 1022) \<le> \<bar>x\<bar>"
  shows "pow2 (binade x - 53) \<le> \<bar>x\<bar> / 2 ^ 53"
proof -
  have x0: "x \<noteq> 0" using assms pow2_pos [of "- 1022"] by auto
  define e where "e = \<lfloor>log 2 \<bar>x\<bar>\<rfloor>"
  have lo: "pow2 e \<le> \<bar>x\<bar>" and hi: "\<bar>x\<bar> < pow2 (e + 1)"
    unfolding e_def using floor_log_bounds [OF x0] by auto
  have "pow2 (- 1022) < pow2 (e + 1)" using assms hi by linarith
  then have e: "- 1022 \<le> e" by (simp add: pow2_less_iff)
  then have b: "binade x = e" by (simp add: binade_def e_def)
  have "pow2 (binade x - 53) = pow2 e / 2 ^ 53" by (simp add: b pow2_half)
  also have "\<dots> \<le> \<bar>x\<bar> / 2 ^ 53" using lo by (simp add: divide_right_mono)
  finally show ?thesis .
qed

lemma binade_any:
  assumes "x \<noteq> 0"
  shows "pow2 (binade x - 53) \<le> \<bar>x\<bar> / 2 ^ 53 + pow2 (- 1075)"
proof (cases "pow2 (- 1022) \<le> \<bar>x\<bar>")
  case True
  from binade_normal [OF True] pow2_pos [of "- 1075"] show ?thesis by linarith
next
  case False
  define e where "e = \<lfloor>log 2 \<bar>x\<bar>\<rfloor>"
  have lo: "pow2 e \<le> \<bar>x\<bar>" unfolding e_def using floor_log_bounds [OF assms] by auto
  have "pow2 e < pow2 (- 1022)" using False lo by linarith
  then have "e < - 1022" by (simp add: pow2_less_iff)
  then have "binade x = - 1022" by (simp add: binade_def e_def)
  then have "pow2 (binade x - 53) = pow2 (- 1075)" by simp
  then show ?thesis by simp
qed

lemma round64_rel_gen:
  assumes "pow2 (- 1022) \<le> \<bar>x\<bar>"
  shows "round64 x = signed_inf (0 < x) \<or> (\<exists>r. round64 x = Fin r \<and> \<bar>r - x\<bar> \<le> \<bar>x\<bar> / 2 ^ 53)"
proof -
  have x0: "x \<noteq> 0" using assms pow2_pos [of "- 1022"] by auto
  from round64_core [OF x0] binade_normal [OF assms] show ?thesis
    by (meson order_trans)
qed

lemma round64_abs:
  assumes "\<bar>x\<bar> \<le> pow2 1023"
  shows "\<exists>r. round64 x = Fin r \<and> \<bar>r - x\<bar> \<le> \<bar>x\<bar> / 2 ^ 53 + pow2 (- 1075)"
proof (cases "x = 0")
  case True
  then show ?thesis using pow2_pos [of "- 1075"] by (simp add: round64_0)
next
  case False
  from round64_core [OF False] obtain r where
    err: "\<bar>r - x\<bar> \<le> pow2 (binade x - 53)" and
    alt: "round64 x = Fin r \<and> \<bar>r\<bar> < pow2 1024 \<or>
          round64 x = signed_inf (0 < x) \<and> pow2 1024 \<le> \<bar>r\<bar>" by blast
  from err binade_any [OF False] have e: "\<bar>r - x\<bar> \<le> \<bar>x\<bar> / 2 ^ 53 + pow2 (- 1075)"
    by linarith
  have "pow2 (- 1075) \<le> pow2 1023 / 2" 
  proof -
    have "pow2 (- 1075) \<le> pow2 1022" by (rule pow2_mono) simp
    moreover have "pow2 1023 = pow2 1022 * pow2 1" unfolding pow2_add [symmetric] by simp
    ultimately show ?thesis by (simp add: pow2_def)
  qed
  moreover have "\<bar>x\<bar> / 2 ^ 53 \<le> pow2 1023 / 2 ^ 53" using assms by (simp add: divide_right_mono)
  moreover have "pow2 1023 / 2 ^ 53 < pow2 1023 / 2" using pow2_pos [of 1023] by simp
  moreover have "\<bar>r\<bar> \<le> \<bar>x\<bar> + \<bar>r - x\<bar>" by linarith
  ultimately have "\<bar>r\<bar> < 2 * pow2 1023" using e assms by linarith
  then have "\<bar>r\<bar> < pow2 1024" by (simp add: pow2_1024)
  with alt have "round64 x = Fin r" by linarith
  with e show ?thesis by blast
qed

lemma pow2_le_numeral:
  "pow2 (- 1022) \<le> pow2 (- 501)" "pow2 501 \<le> pow2 1023" "pow2 (- 1022) \<le> pow2 (- 500)"
  "pow2 500 \<le> pow2 1023" "pow2 (- 1022) \<le> 1 / 4" "4 \<le> pow2 1023"
proof -
  show "pow2 (- 1022) \<le> pow2 (- 501)" "pow2 501 \<le> pow2 1023"
    "pow2 (- 1022) \<le> pow2 (- 500)" "pow2 500 \<le> pow2 1023"
    by (simp_all add: pow2_le_iff)
  have "pow2 (- 1022) \<le> pow2 (- 2)" by (simp add: pow2_le_iff)
  then show "pow2 (- 1022) \<le> 1 / 4" by (simp add: pow2_def)
  have "pow2 2 \<le> pow2 1023" by (simp add: pow2_le_iff)
  then show "4 \<le> pow2 1023" by (simp add: pow2_def)
qed

lemma pow2_shift: "pow2 (- 501) = pow2 (- 500) / 2" "pow2 501 = 2 * pow2 500"
proof -
  have "pow2 (- 500) = pow2 (- 501) * pow2 1" unfolding pow2_add [symmetric] by simp
  then show "pow2 (- 501) = pow2 (- 500) / 2" by (simp add: pow2_def)
  have "pow2 501 = pow2 500 * pow2 1" unfolding pow2_add [symmetric] by simp
  then show "pow2 501 = 2 * pow2 500" by (simp add: pow2_def)
qed

lemma ratio_bounds:
  fixes x r :: real
  assumes "0 < x"
  shows "x * lo \<le> r \<Longrightarrow> lo \<le> r / x" and "r \<le> x * hi \<Longrightarrow> r / x \<le> hi"
  using assms by (simp_all add: pos_le_divide_eq pos_divide_le_eq mult.commute)

lemmas r_eval = r_add_def r_sub_def r_mul_def r_div_def r_sqrt_def r_sum_def rnd_def
  fl_sub_def round64_numeral round64_0 average_def

section \<open>Properties of the standardisation\<close>

lemma pos_less: "c \<in> set cs \<Longrightarrow> pos c cs < length cs"
  by (induction cs) (auto simp: pos_def)

lemma nth_pos: "c \<in> set cs \<Longrightarrow> cs ! pos c cs = c"
  by (induction cs) (auto simp: pos_def)

lemma map_nth_pos: "c \<in> set cs \<Longrightarrow> map g cs ! pos c cs = g c"
  by (simp add: pos_less nth_pos)

lemma series_get_map: "c \<in> set cs \<Longrightarrow> series_get (map (\<lambda>c. (c, h c)) cs) c = h c"
  by (induction cs) (auto simp: series_get_def)

lemma set_union_labels: "set (union_labels cs ls) = set cs \<union> set ls"
  by (auto simp: union_labels_def)

text \<open>
  The in-place operation keeps the columns of the table, whatever labels the series has.
\<close>

lemma inplace_eq:
  "inplace op f s =
     \<lparr>columns = columns f, index = index f,
      data = map (\<lambda>r. map (\<lambda>c. op (r ! pos c (columns f)) (series_get s c)) (columns f))
               (data f)\<rparr>"
proof -
  let ?u = "union_labels (columns f) (map fst s)"
  have "\<And>r c. c \<in> set (columns f) \<Longrightarrow>
      cell_at ?u (map (\<lambda>c. op (cell_at (columns f) r c) (series_get s c)) ?u) c =
      op (r ! pos c (columns f)) (series_get s c)"
    by (simp add: cell_at_def set_union_labels map_nth_pos)
  then show ?thesis
    by (simp add: inplace_def reindex_like_def frame_op_series_def Let_def)
qed

lemma lookup_frame_bound:
  "env s x = Some a \<Longrightarrow> a < length (heap s) \<Longrightarrow> heap s ! a = Frame f \<Longrightarrow>
   lookup_frame s x = Inr (a, f)"
  by (simp add: lookup_frame_def lookup_def)

lemma lookup_frame_D:
  "lookup_frame s x = Inr (a, f) \<Longrightarrow>
   env s x = Some a \<and> a < length (heap s) \<and> heap s ! a = Frame f"
  by (auto simp: lookup_frame_def lookup_def split: option.splits if_splits obj.splits sum.splits)

lemma column_loc:
  assumes "c \<in> set names"
  shows "column \<lparr>columns = names, index = ix,
                  data = map (\<lambda>r. map (\<lambda>c. r ! pos c cs) names) rows\<rparr> c =
         map (\<lambda>r. r ! pos c cs) rows"
  using assms by (simp add: column_def map_nth_pos)

lemma centered_eq:
  assumes "set bpx_vars \<subseteq> set (columns da)"
  shows "inplace fl_sub \<lparr>columns = bpx_vars, index = index da,
            data = map (\<lambda>r. map (\<lambda>c. r ! pos c (columns da)) bpx_vars) (data da)\<rparr>
           (mean0 \<lparr>columns = bpx_vars, index = index da,
            data = map (\<lambda>r. map (\<lambda>c. r ! pos c (columns da)) bpx_vars) (data da)\<rparr>) =
         \<lparr>columns = bpx_vars, index = index da,
          data = map (\<lambda>r. map (\<lambda>c. fl_sub (r ! pos c (columns da)) (nanmean (column da c)))
                     bpx_vars) (data da)\<rparr>"
  by (simp add: inplace_eq mean0_def series_get_map map_nth_pos column_loc column_def
      cong: map_cong)

lemma scaled_eq:
  assumes "set bpx_vars \<subseteq> set (columns da)"
  shows "inplace fl_div \<lparr>columns = bpx_vars, index = index da,
          data = map (\<lambda>r. map (\<lambda>c. fl_sub (r ! pos c (columns da)) (nanmean (column da c)))
                     bpx_vars) (data da)\<rparr> (std0 da) = standardized da"
  using assms
  by (auto simp add: inplace_eq std0_def series_get_map map_nth_pos standardized_def)

text \<open>
  The three statements run to the end whenever \<open>da\<close> names a table with the
  blood-pressure columns; \<open>ds\<close> then names a new object holding the standardised copy.
\<close>

lemma standardize_run:
  assumes "lookup_frame s ''da'' = Inr (a, da)" and "set bpx_vars \<subseteq> set (columns da)"
  shows "standardize s =
           Inr (s\<lparr>heap := heap s @ [Frame (standardized da)],
                  env := (env s)(''ds'' \<mapsto> length (heap s))\<rparr>)"
proof -
  let ?t = "\<lparr>columns = bpx_vars, index = index da,
             data = map (\<lambda>r. map (\<lambda>c. r ! pos c (columns da)) bpx_vars) (data da)\<rparr>"
  let ?c = "\<lparr>columns = bpx_vars, index = index da,
          data = map (\<lambda>r. map (\<lambda>c. fl_sub (r ! pos c (columns da)) (nanmean (column da c)))
                     bpx_vars) (data da)\<rparr>"
  let ?n = "length (heap s)"
  let ?s1 = "bind_new s ''ds'' (Frame ?t)"
  let ?s2 = "put ?s1 ?n (Frame ?c)"
  from assms(1) have da: "env s ''da'' = Some a" "a < ?n" "heap s ! a = Frame da"
    by (auto dest: lookup_frame_D)
  have 1: "ds_select s = Inr ?s1"
    by (simp add: ds_select_def assms(1) loc_cols_ok [OF assms(2)])
  have "lookup_frame ?s1 ''ds'' = Inr (?n, ?t)"
    by (rule lookup_frame_bound) (simp_all add: bind_new_def)
  then have 2: "ds_center ?s1 = Inr ?s2"
    by (simp add: ds_center_def centered_eq [OF assms(2)])
  have ds2: "lookup_frame ?s2 ''ds'' = Inr (?n, ?c)"
    by (rule lookup_frame_bound) (simp_all add: bind_new_def put_def)
  have da2: "lookup_frame ?s2 ''da'' = Inr (a, da)"
    using da by (intro lookup_frame_bound) (simp_all add: bind_new_def put_def nth_append)
  have 3: "ds_scale ?s2 = Inr (put ?s2 ?n (Frame (standardized da)))"
    by (simp add: ds_scale_def ds2 da2 scaled_eq [OF assms(2)])
  have "standardize s = Inr (put ?s2 ?n (Frame (standardized da)))"
    by (simp add: standardize_def seq_def 1 2 3)
  then show ?thesis
    by (simp add: put_def bind_new_def)
qed


lemma bpx_vars_length: "length bpx_vars = 6"
  by (simp add: bpx_vars_def)






lemma standardize_InrD:
  assumes "standardize s = Inr s1"
  shows "\<exists>a da. lookup_frame s ''da'' = Inr (a, da) \<and> set bpx_vars \<subseteq> set (columns da)"
proof -
  from assms obtain s0 where "ds_select s = Inr s0"
    by (auto simp: standardize_def seq_def split: sum.splits)
  then obtain a da t where l: "lookup_frame s ''da'' = Inr (a, da)"
    and t: "loc_cols da bpx_vars = Inr t"
    by (auto simp: ds_select_def split: sum.splits)
  from t have "filter (\<lambda>c. c \<notin> set (columns da)) bpx_vars = []"
    by (auto simp: loc_cols_def split: list.splits)
  then have "set bpx_vars \<subseteq> set (columns da)"
    by (auto simp: filter_empty_conv)
  with l show ?thesis by blast
qed

lemma scores_project_InrD:
  "scores_project s = Inr s' \<Longrightarrow> \<exists>m. s' = bind_new s ''scores'' (Array m)"
  by (auto simp: scores_project_def split: sum.splits)

text \<open>
  Claim C10. Whenever the standardisation, or the whole of cell 15 with the score
  projection, runs to the end, \<open>da\<close> still names the same object holding the same
  table, every object that existed before is unchanged, and \<open>ds\<close> names an object
  that did not exist before: the copy, not the filtered table, is what was modified.
\<close>

theorem filtered_table_unchanged:
  "(standardize s = Inr s1 \<longrightarrow>
      (\<exists>a da. lookup_frame s ''da'' = Inr (a, da) \<and> lookup_frame s1 ''da'' = Inr (a, da) \<and>
         env s1 ''ds'' = Some (length (heap s)) \<and> a \<noteq> length (heap s)) \<and>
      (\<forall>b < length (heap s). heap s1 ! b = heap s ! b)) \<and>
   (cell15 s = Inr s2 \<longrightarrow>
      (\<exists>a da. lookup_frame s ''da'' = Inr (a, da) \<and> lookup_frame s2 ''da'' = Inr (a, da) \<and>
         env s2 ''ds'' = Some (length (heap s)) \<and> a \<noteq> length (heap s)) \<and>
      (\<forall>b < length (heap s). heap s2 ! b = heap s ! b))"
proof -
  have std: "(\<exists>a da. lookup_frame s ''da'' = Inr (a, da) \<and> lookup_frame t ''da'' = Inr (a, da) \<and>
         env t ''ds'' = Some (length (heap s)) \<and> a \<noteq> length (heap s)) \<and>
      (\<forall>b < length (heap s). heap t ! b = heap s ! b) \<and>
      length (heap s) < length (heap t)"
    if "standardize s = Inr t" for t
  proof -
    from that obtain a da where l: "lookup_frame s ''da'' = Inr (a, da)"
      and sub: "set bpx_vars \<subseteq> set (columns da)"
      using standardize_InrD by blast
    from l have da: "env s ''da'' = Some a" "a < length (heap s)" "heap s ! a = Frame da"
      by (auto dest: lookup_frame_D)
    have t: "t = s\<lparr>heap := heap s @ [Frame (standardized da)],
                  env := (env s)(''ds'' \<mapsto> length (heap s))\<rparr>"
      using standardize_run [OF l sub] that by simp
    have "lookup_frame t ''da'' = Inr (a, da)"
      using da by (intro lookup_frame_bound) (simp_all add: t nth_append)
    moreover have "env t ''ds'' = Some (length (heap s))" by (simp add: t)
    moreover have "\<forall>b < length (heap s). heap t ! b = heap s ! b"
      by (simp add: t nth_append)
    moreover have "length (heap s) < length (heap t)" by (simp add: t)
    ultimately show ?thesis using l da(2) by blast
  qed
  have cell: "(\<exists>a da. lookup_frame s ''da'' = Inr (a, da) \<and> lookup_frame s2 ''da'' = Inr (a, da) \<and>
         env s2 ''ds'' = Some (length (heap s)) \<and> a \<noteq> length (heap s)) \<and>
      (\<forall>b < length (heap s). heap s2 ! b = heap s ! b)"
    if "cell15 s = Inr s2"
  proof -
    from that obtain t where t: "standardize s = Inr t" and p: "scores_project t = Inr s2"
      by (auto simp: cell15_def seq_def split: sum.splits)
    from p obtain m where s2: "s2 = bind_new t ''scores'' (Array m)"
      using scores_project_InrD by blast
    from std [OF t] obtain a da where l: "lookup_frame s ''da'' = Inr (a, da)"
      and lt: "lookup_frame t ''da'' = Inr (a, da)"
      and ds: "env t ''ds'' = Some (length (heap s))" and ne: "a \<noteq> length (heap s)"
      and old: "\<forall>b < length (heap s). heap t ! b = heap s ! b"
      and len: "length (heap s) < length (heap t)"
      by blast
    from lt have dat: "env t ''da'' = Some a" "a < length (heap t)" "heap t ! a = Frame da"
      by (auto dest: lookup_frame_D)
    have "lookup_frame s2 ''da'' = Inr (a, da)"
      using dat by (intro lookup_frame_bound) (simp_all add: s2 bind_new_def nth_append)
    moreover have "env s2 ''ds'' = Some (length (heap s))"
      using ds by (simp add: s2 bind_new_def)
    moreover have "\<forall>b < length (heap s). heap s2 ! b = heap s ! b"
      using old len by (simp add: s2 bind_new_def nth_append)
    ultimately show ?thesis using l ne by blast
  qed
  show ?thesis using std cell by blast
qed


lemma lookup_matrix_append:
  assumes "lookup_matrix s x = Inr B" and "x \<noteq> y"
  shows "lookup_matrix (s\<lparr>heap := heap s @ [v], env := (env s)(y \<mapsto> n)\<rparr>) x = Inr B"
  using assms
  by (auto simp: lookup_matrix_def lookup_def nth_append
           split: option.splits if_splits sum.splits)

lemma cell15_run:
  assumes "lookup_frame s ''da'' = Inr (a, da)" and "set bpx_vars \<subseteq> set (columns da)"
      and "lookup_matrix s ''eig'' = Inr B" and "length B = 6"
  shows "\<exists>s'. cell15 s = Inr s'"
proof -
  let ?s1 = "s\<lparr>heap := heap s @ [Frame (standardized da)],
                env := (env s)(''ds'' \<mapsto> length (heap s))\<rparr>"
  have run: "standardize s = Inr ?s1" using assms(1,2) by (rule standardize_run)
  have A: "lookup_matrix ?s1 ''ds'' = Inr (data (standardized da))"
    by (simp add: lookup_matrix_def lookup_def)
  have B: "lookup_matrix ?s1 ''eig'' = Inr B"
    using assms(3) by (rule lookup_matrix_append) simp
  have "list_all (\<lambda>r. length r = length B) (data (standardized da))"
    by (simp add: standardized_def list_all_iff assms(4) bpx_vars_length)
  then obtain m where "dot (data (standardized da)) B = Inr m"
    by (simp add: dot_def)
  then have "\<exists>s'. scores_project ?s1 = Inr s'"
    by (simp add: scores_project_def A B)
  then show ?thesis by (simp add: cell15_def seq_def run)
qed

lemma ex_state_da: "lookup_frame (ex_state da) ''da'' = Inr (0, da)"
  by (simp add: ex_state_def lookup_frame_def lookup_def)

lemma ex_state_eig: "lookup_matrix (ex_state da) ''eig'' = Inr ex_eig6"
  by (simp add: ex_state_def lookup_matrix_def lookup_def)




theorem filtered_table_unchanged_witness:
  "\<exists>s1 s2. standardize (ex_state ex_da) = Inr s1 \<and> cell15 (ex_state ex_da) = Inr s2 \<and>
     lookup_frame s1 ''da'' = Inr (0, ex_da) \<and> lookup_frame s2 ''da'' = Inr (0, ex_da) \<and>
     env s2 ''ds'' = Some 2 \<and>
     (\<forall>b < 2. heap s2 ! b = heap (ex_state ex_da) ! b)"
proof -
  have l: "lookup_frame (ex_state ex_da) ''da'' = Inr (0, ex_da)" by (rule ex_state_da)
  have sub: "set bpx_vars \<subseteq> set (columns ex_da)" by (auto simp: ex_da_def)
  have n: "length (heap (ex_state ex_da)) = 2" by (simp add: ex_state_def)
  obtain s1 where s1: "standardize (ex_state ex_da) = Inr s1"
    using standardize_run [OF l sub] by blast
  obtain s2 where s2: "cell15 (ex_state ex_da) = Inr s2"
    using cell15_run [OF l sub ex_state_eig] by (auto simp: ex_eig6_def)
  from filtered_table_unchanged [of "ex_state ex_da" s1 s2] s1 s2 l n show ?thesis
    by auto
qed

section \<open>Properties of the printed variance proportions\<close>

lemma rne_nonneg: "0 \<le> y \<Longrightarrow> 0 \<le> rne y"
proof -
  assume "0 \<le> y"
  then have "0 \<le> \<lfloor>y\<rfloor>" by simp
  then show ?thesis by (simp add: rne_def Let_def)
qed

lemma round64_nonneg: "0 \<le> x \<Longrightarrow> fl_le (Fin 0) (round64 x)"
proof (cases "x = 0")
  case True
  then show ?thesis by (simp add: round64_0)
next
  case False
  assume "0 \<le> x"
  with False have pos: "0 < x" by simp
  let ?q = "pow2 (binade x - 52)"
  have "0 \<le> x / ?q" using pos pow2_pos [of "binade x - 52"] by simp
  then have "0 \<le> rne (x / ?q)" by (rule rne_nonneg)
  then have "0 \<le> of_int (rne (x / ?q)) * ?q"
    using pow2_pos [of "binade x - 52"] by simp
  then show ?thesis using pos by (simp add: round64_def Let_def signed_inf_def)
qed

lemma r_add_Fin_D: "r_add a b = Fin s \<Longrightarrow> \<exists>x y. a = Fin x \<and> b = Fin y"
  by (cases a; cases b) (simp_all add: r_add_def rnd_def)

lemma r_mul_Fin_D: "r_mul a a = Fin s \<Longrightarrow> \<exists>x. a = Fin x \<and> 0 \<le> s"
proof (cases a)
  case (Fin x)
  assume "r_mul a a = Fin s"
  then have "round64 (x * x) = Fin s" using Fin by (simp add: r_mul_def rnd_def)
  moreover have "fl_le (Fin 0) (round64 (x * x))" by (rule round64_nonneg) simp
  ultimately show ?thesis using Fin by simp
qed (simp_all add: r_mul_def rnd_def)

lemma foldl_r_add_Fin:
  "foldl r_add a xs = Fin S \<Longrightarrow> (\<exists>t. a = Fin t) \<and> list_all isfinite xs"
proof (induction xs arbitrary: a)
  case Nil
  then show ?case by simp
next
  case (Cons x xs)
  then have "(\<exists>t. r_add a x = Fin t) \<and> list_all isfinite xs" by simp
  then show ?case by (auto dest: r_add_Fin_D)
qed

lemma foldl_r_add_nonneg:
  "foldl r_add (Fin t) xs = Fin S \<Longrightarrow> 0 \<le> t \<Longrightarrow> list_all (fl_le (Fin 0)) xs \<Longrightarrow> 0 \<le> S"
proof (induction xs arbitrary: t)
  case Nil
  then show ?case by simp
next
  case (Cons x xs)
  from Cons.prems(1) obtain t' where t': "r_add (Fin t) x = Fin t'"
    using foldl_r_add_Fin [of "r_add (Fin t) x" xs S] by auto
  then obtain v where v: "x = Fin v" by (auto dest: r_add_Fin_D)
  with Cons.prems(3) have "0 \<le> v" by simp
  then have "fl_le (Fin 0) (round64 (t + v))"
    using Cons.prems(2) by (intro round64_nonneg) simp
  with t' v have nonneg: "0 \<le> t'" by (simp add: r_add_def rnd_def)
  have rest: "foldl r_add (Fin t') xs = Fin S" using Cons.prems(1) t' by simp
  have all: "list_all (fl_le (Fin 0)) xs" using Cons.prems(3) by simp
  show ?case using rest nonneg all by (rule Cons.IH)
qed

lemma var_explained_cells:
  assumes "r_sum (map (\<lambda>x. r_mul x x) eiv) = Fin S" and "S \<noteq> 0"
  shows "0 < S \<and> length (var_explained eiv) = length eiv \<and>
         (\<forall>i < length eiv.
            var_explained eiv ! i = r_div (r_mul (eiv ! i) (eiv ! i)) (Fin S) \<and>
            fl_le (Fin 0) (var_explained eiv ! i))"
proof -
  let ?sq = "map (\<lambda>x. r_mul x x) eiv"
  have fold: "foldl r_add (Fin 0) ?sq = Fin S" using assms(1) by (simp add: r_sum_def)
  then have fin: "list_all isfinite ?sq" by (auto dest: foldl_r_add_Fin)
  have sq: "\<exists>s. r_mul (eiv ! i) (eiv ! i) = Fin s \<and> 0 \<le> s" if "i < length eiv" for i
  proof -
    have "isfinite (r_mul (eiv ! i) (eiv ! i))"
      using fin that by (simp add: list_all_length)
    then obtain s where s: "r_mul (eiv ! i) (eiv ! i) = Fin s"
      by (cases "r_mul (eiv ! i) (eiv ! i)") simp_all
    then show ?thesis by (auto dest: r_mul_Fin_D)
  qed
  have "list_all (fl_le (Fin 0)) ?sq"
    using sq by (fastforce simp: list_all_length)
  with fold have "0 \<le> S" by (intro foldl_r_add_nonneg [of 0 ?sq S]) simp_all
  with assms(2) have S: "0 < S" by simp
  have cell: "var_explained eiv ! i = r_div (r_mul (eiv ! i) (eiv ! i)) (Fin S) \<and>
            fl_le (Fin 0) (var_explained eiv ! i)" if "i < length eiv" for i
  proof -
    have v: "var_explained eiv ! i = r_div (r_mul (eiv ! i) (eiv ! i)) (Fin S)"
      using that by (simp add: var_explained_def Let_def assms(1))
    from sq [OF that] obtain s where s: "r_mul (eiv ! i) (eiv ! i) = Fin s" "0 \<le> s" by blast
    have "fl_le (Fin 0) (round64 (s / S))" using s(2) S by (intro round64_nonneg) simp
    then show ?thesis using v s(1) S by (simp add: r_div_def rnd_def)
  qed
  have len: "length (var_explained eiv) = length eiv"
    by (simp add: var_explained_def Let_def)
  show ?thesis using S len cell by blast
qed

section \<open>Rounding error of the sum of the proportions\<close>

lemma sum_list_zero_or_ge:
  fixes xs :: "real list"
  assumes "\<forall>x \<in> set xs. x = 0 \<or> (L \<le> x \<and> x \<le> H)" and "0 < L" and "L \<le> H"
  shows "0 \<le> sum_list xs \<and> (sum_list xs = 0 \<or> L \<le> sum_list xs) \<and>
         sum_list xs \<le> real (length xs) * H"
  using assms(1)
proof (induction xs)
  case Nil
  then show ?case by simp
next
  case (Cons x xs)
  then have ih: "0 \<le> sum_list xs" "sum_list xs = 0 \<or> L \<le> sum_list xs"
    "sum_list xs \<le> real (length xs) * H" by simp_all
  have x: "x = 0 \<or> (L \<le> x \<and> x \<le> H)" using Cons.prems by simp
  have H: "0 \<le> H" using assms(2,3) by simp
  have "x \<le> H" using x H by auto
  then have "x + sum_list xs \<le> (1 + real (length xs)) * H"
    using ih(3) by (simp add: algebra_simps)
  moreover have "0 \<le> x" using x assms(2) by auto
  ultimately show ?case using ih x assms(2) by auto
qed

lemma step_upper:
  fixes T S x a r :: real
  assumes "T \<le> S * (1 + a / 2 ^ 52)" and "r \<le> (T + x) * (1 + 1 / 2 ^ 53)"
      and "0 \<le> S" and "0 \<le> x" and "0 \<le> a" and "a \<le> 7"
  shows "r \<le> (S + x) * (1 + (a + 1) / 2 ^ 52)"
proof -
  have "x * 1 \<le> x * (1 + a / 2 ^ 52)" using assms(4,5) by (intro mult_left_mono) simp_all
  with assms(1) have "T + x \<le> (S + x) * (1 + a / 2 ^ 52)" by (simp add: distrib_right)
  then have "(T + x) * (1 + 1 / 2 ^ 53) \<le> (S + x) * (1 + a / 2 ^ 52) * (1 + 1 / 2 ^ 53)"
    by (intro mult_right_mono) simp_all
  also have "\<dots> = (S + x) * ((1 + a / 2 ^ 52) * (1 + 1 / 2 ^ 53))" by simp
  also have "\<dots> \<le> (S + x) * (1 + (a + 1) / 2 ^ 52)"
  proof (intro mult_left_mono)
    show "(1 + a / 2 ^ 52) * (1 + 1 / 2 ^ 53) \<le> 1 + (a + 1) / 2 ^ 52"
      using assms(5,6) by (simp add: field_simps)
    show "0 \<le> S + x" using assms(3,4) by simp
  qed
  finally show ?thesis using assms(2) by linarith
qed

lemma step_lower:
  fixes T S x a r :: real
  assumes "S * (1 - a / 2 ^ 52) \<le> T" and "(T + x) * (1 - 1 / 2 ^ 53) \<le> r"
      and "0 \<le> S" and "0 \<le> x" and "0 \<le> a" and "a \<le> 7"
  shows "(S + x) * (1 - (a + 1) / 2 ^ 52) \<le> r"
proof -
  have "(S + x) * (1 - (a + 1) / 2 ^ 52) \<le> (S + x) * ((1 - a / 2 ^ 52) * (1 - 1 / 2 ^ 53))"
  proof (intro mult_left_mono)
    show "1 - (a + 1) / 2 ^ 52 \<le> (1 - a / 2 ^ 52) * (1 - 1 / 2 ^ 53)"
      using assms(5,6) by (simp add: field_simps)
    show "0 \<le> S + x" using assms(3,4) by simp
  qed
  also have "\<dots> = (S + x) * (1 - a / 2 ^ 52) * (1 - 1 / 2 ^ 53)" by simp
  also have "\<dots> \<le> (T + x) * (1 - 1 / 2 ^ 53)"
  proof (intro mult_right_mono)
    have "x * (1 - a / 2 ^ 52) \<le> x * 1" using assms(4,5) by (intro mult_left_mono) simp_all
    with assms(1) show "(S + x) * (1 - a / 2 ^ 52) \<le> T + x" by (simp add: distrib_right)
    show "0 \<le> 1 - 1 / (2::real) ^ 53" by simp
  qed
  finally show ?thesis using assms(2) by linarith
qed

lemma pow2_sum_range:
  "pow2 (- 1022) = pow2 (- 1021) / 2" "pow2 1023 = 16 * pow2 1019"
proof -
  have "pow2 (- 1021) = pow2 (- 1022) * pow2 1" unfolding pow2_add [symmetric] by simp
  then show "pow2 (- 1022) = pow2 (- 1021) / 2" by (simp add: pow2_def)
  have "pow2 1023 = pow2 1019 * pow2 4" unfolding pow2_add [symmetric] by simp
  then show "pow2 1023 = 16 * pow2 1019" by (simp add: pow2_def)
qed

text \<open>
  The float sum, taken left to right, of at most seven non-negative terms each zero or
  well inside the normal range: every addition loses at most one part in \<open>2^53\<close>.
\<close>

lemma r_sum_bounds:
  fixes xs :: "real list"
  assumes "\<forall>x \<in> set xs. x = 0 \<or> (L \<le> x \<and> x \<le> H)"
      and "pow2 (- 1021) \<le> L" and "H \<le> pow2 1019" and "length xs \<le> 7" and "L \<le> H"
  shows "\<exists>T. r_sum (map Fin xs) = Fin T \<and>
           sum_list xs * (1 - real (length xs) / 2 ^ 52) \<le> T \<and>
           T \<le> sum_list xs * (1 + real (length xs) / 2 ^ 52)"
  using assms(1,4)
proof (induction xs rule: rev_induct)
  case Nil
  then show ?case by (simp add: r_sum_def)
next
  case (snoc x xs)
  have Lpos: "0 < L" using assms(2) pow2_pos [of "- 1021"] by linarith
  have all: "\<forall>x \<in> set xs. x = 0 \<or> (L \<le> x \<and> x \<le> H)" using snoc.prems(1) by simp
  have len: "length xs \<le> 6" using snoc.prems(2) by simp
  define a where "a = real (length xs)"
  have a: "0 \<le> a" "a \<le> 6" using len by (simp_all add: a_def)
  from snoc.IH [OF all] len obtain T where
    T: "r_sum (map Fin xs) = Fin T" "sum_list xs * (1 - a / 2 ^ 52) \<le> T"
       "T \<le> sum_list xs * (1 + a / 2 ^ 52)"
    unfolding a_def by auto
  define S where "S = sum_list xs"
  from sum_list_zero_or_ge [OF all Lpos assms(5)]
  have S: "0 \<le> S" "S = 0 \<or> L \<le> S" "S \<le> a * H" by (simp_all add: S_def a_def)
  have x: "x = 0 \<or> (L \<le> x \<and> x \<le> H)" using snoc.prems(1) by simp
  have xnn: "0 \<le> x" using x Lpos by auto
  have lo_f: "1 / 2 \<le> 1 - a / 2 ^ 52" using a by simp
  have hi_f: "1 + a / 2 ^ 52 \<le> 2" using a by simp
  have Tnn: "0 \<le> T"
  proof -
    have "0 \<le> S * (1 - a / 2 ^ 52)" using S(1) lo_f by (intro mult_nonneg_nonneg) simp_all
    with T(2) show ?thesis by (simp add: S_def)
  qed
  have step: "r_sum (map Fin (xs @ [x])) = round64 (T + x)"
    using T(1) by (simp add: r_sum_def r_add_def rnd_def)
  have len': "real (length (xs @ [x])) = a + 1" by (simp add: a_def)
  have sum': "sum_list (xs @ [x]) = S + x" by (simp add: S_def)
  show ?case
  proof (cases "T + x = 0")
    case True
    with Tnn xnn have T0: "T = 0" and x0: "x = 0" by simp_all
    have "S * (1 / 2) \<le> S * (1 - a / 2 ^ 52)" using S(1) lo_f by (intro mult_left_mono)
    with T(2) T0 have "S \<le> 0" by (simp add: S_def)
    with S(1) have "S = 0" by simp
    then show ?thesis unfolding step len' sum' using True x0 by (simp add: round64_0)
  next
    case False
    with Tnn xnn have pos: "0 < T + x" by simp
    have Hnn: "0 \<le> H" using Lpos assms(5) by simp
    have lo: "pow2 (- 1022) \<le> T + x"
    proof (cases "x = 0")
      case False
      with x have "L \<le> x" by simp
      with assms(2) Tnn pow2_pos [of "- 1021"] show ?thesis
        unfolding pow2_sum_range by linarith
    next
      case True
      with pos have "0 < T" by simp
      have "S \<noteq> 0" using T(3) \<open>0 < T\<close> by (auto simp: S_def)
      with S(2) have "L \<le> S" by simp
      have "L * (1 / 2) \<le> S * (1 - a / 2 ^ 52)"
        using \<open>L \<le> S\<close> lo_f Lpos by (intro mult_mono) simp_all
      with T(2) have "L / 2 \<le> T" by (simp add: S_def)
      with assms(2) True show ?thesis unfolding pow2_sum_range by linarith
    qed
    have hi: "T + x \<le> pow2 1023"
    proof -
      have "S * (1 + a / 2 ^ 52) \<le> (a * H) * 2"
        using S(1,3) hi_f a(1) Hnn by (intro mult_mono) simp_all
      also have "\<dots> \<le> (6 * H) * 2" using a(2) Hnn by (intro mult_right_mono) simp_all
      finally have "T \<le> 12 * H" using T(3) by (simp add: S_def)
      moreover have "x \<le> H" using x Hnn by auto
      ultimately have "T + x \<le> 13 * H" by simp
      also have "\<dots> \<le> 16 * pow2 1019" using assms(3) Hnn by simp
      finally show ?thesis by (simp add: pow2_sum_range)
    qed
    from round64_rel_pos [OF lo hi] obtain r where
      r: "round64 (T + x) = Fin r" "(T + x) * (1 - 1 / 2 ^ 53) \<le> r"
         "r \<le> (T + x) * (1 + 1 / 2 ^ 53)" by blast
    have a7: "a \<le> 7" using a(2) by simp
    have "(S + x) * (1 - (a + 1) / 2 ^ 52) \<le> r"
      using T(2) [folded S_def] r(2) S(1) xnn a(1) a7 by (rule step_lower)
    moreover have "r \<le> (S + x) * (1 + (a + 1) / 2 ^ 52)"
      using T(3) [folded S_def] r(3) S(1) xnn a(1) a7 by (rule step_upper)
    ultimately show ?thesis unfolding step len' sum' using r(1) by blast
  qed
qed


lemma pow2_sq_range:
  "pow2 (- 250) * pow2 (- 250) = pow2 (- 500)" "pow2 250 * pow2 250 = pow2 500"
  "pow2 (- 501) = pow2 (- 500) / 2" "pow2 501 = 2 * pow2 500"
  "pow2 (- 1022) \<le> pow2 (- 500)" "pow2 500 \<le> pow2 1023"
proof -
  show "pow2 (- 250) * pow2 (- 250) = pow2 (- 500)" "pow2 250 * pow2 250 = pow2 500"
    unfolding pow2_add [symmetric] by simp_all
  show "pow2 (- 501) = pow2 (- 500) / 2" "pow2 501 = 2 * pow2 500" by (rule pow2_shift)+
  show "pow2 (- 1022) \<le> pow2 (- 500)" "pow2 500 \<le> pow2 1023" by (rule pow2_mono, simp)+
qed

text \<open>The rounded square of an eigenvalue that is zero or of moderate size.\<close>

lemma sq_range:
  assumes "x = 0 \<or> (pow2 (- 250) \<le> \<bar>x\<bar> \<and> \<bar>x\<bar> \<le> pow2 250)"
  shows "\<exists>q. r_mul (Fin x) (Fin x) = Fin q \<and> (q = 0 \<or> (pow2 (- 501) \<le> q \<and> q \<le> pow2 501))"
proof (cases "x = 0")
  case True
  then show ?thesis by (simp add: r_mul_def rnd_def round64_0)
next
  case False
  with assms have x: "pow2 (- 250) \<le> \<bar>x\<bar>" "\<bar>x\<bar> \<le> pow2 250" by simp_all
  have xx: "x * x = \<bar>x\<bar> * \<bar>x\<bar>" by simp
  have "pow2 (- 250) * pow2 (- 250) \<le> \<bar>x\<bar> * \<bar>x\<bar>"
    using x(1) pow2_pos [of "- 250"] by (intro mult_mono) simp_all
  then have lo: "pow2 (- 500) \<le> x * x" unfolding xx pow2_sq_range .
  have "\<bar>x\<bar> * \<bar>x\<bar> \<le> pow2 250 * pow2 250"
    using x(2) pow2_pos [of 250] by (intro mult_mono) simp_all
  then have hi: "x * x \<le> pow2 500" unfolding xx pow2_sq_range .
  have "pow2 (- 1022) \<le> x * x" "x * x \<le> pow2 1023"
    using lo hi pow2_sq_range(5,6) by linarith+
  from round64_rel_pos [OF this] obtain q where
    q: "round64 (x * x) = Fin q" "x * x * (1 - 1 / 2 ^ 53) \<le> q" "q \<le> x * x * (1 + 1 / 2 ^ 53)"
    by blast
  have pos: "0 < x * x" using lo pow2_pos [of "- 500"] by linarith
  have "x * x / 2 \<le> x * x * (1 - 1 / 2 ^ 53)" using pos by simp
  with q(2) lo have "pow2 (- 501) \<le> q" unfolding pow2_sq_range by linarith
  moreover have "x * x * (1 + 1 / 2 ^ 53) \<le> 2 * (x * x)" using pos by simp
  with q(3) hi have "q \<le> pow2 501" unfolding pow2_sq_range by linarith
  ultimately show ?thesis using q(1) by (simp add: r_mul_def rnd_def)
qed

lemma squares_range:
  assumes "\<forall>i < length eiv. \<exists>x. eiv ! i = Fin x \<and>
             (x = 0 \<or> (pow2 (- 250) \<le> \<bar>x\<bar> \<and> \<bar>x\<bar> \<le> pow2 250))"
  shows "\<exists>qs. map (\<lambda>x. r_mul x x) eiv = map Fin qs \<and>
           (\<forall>q \<in> set qs. q = 0 \<or> (pow2 (- 501) \<le> q \<and> q \<le> pow2 501))"
  using assms
proof (induction eiv)
  case Nil
  then show ?case by simp
next
  case (Cons e eiv)
  have "\<forall>i < length eiv. \<exists>x. eiv ! i = Fin x \<and>
             (x = 0 \<or> (pow2 (- 250) \<le> \<bar>x\<bar> \<and> \<bar>x\<bar> \<le> pow2 250))"
  proof (intro allI impI)
    fix i assume "i < length eiv"
    then have "Suc i < length (e # eiv)" by simp
    from Cons.prems [rule_format, OF this] show "\<exists>x. eiv ! i = Fin x \<and>
             (x = 0 \<or> (pow2 (- 250) \<le> \<bar>x\<bar> \<and> \<bar>x\<bar> \<le> pow2 250))" by simp
  qed
  from Cons.IH [OF this] obtain qs where
    qs: "map (\<lambda>x. r_mul x x) eiv = map Fin qs"
        "\<forall>q \<in> set qs. q = 0 \<or> (pow2 (- 501) \<le> q \<and> q \<le> pow2 501)" by blast
  have "0 < length (e # eiv)" by simp
  from Cons.prems [rule_format, OF this] obtain x where
    x: "e = Fin x" "x = 0 \<or> (pow2 (- 250) \<le> \<bar>x\<bar> \<and> \<bar>x\<bar> \<le> pow2 250)" by auto
  from sq_range [OF x(2)] obtain q where
    q: "r_mul (Fin x) (Fin x) = Fin q" "q = 0 \<or> (pow2 (- 501) \<le> q \<and> q \<le> pow2 501)" by blast
  have "map (\<lambda>x. r_mul x x) (e # eiv) = map Fin (q # qs)" using qs(1) q(1) x(1) by simp
  moreover have "\<forall>q' \<in> set (q # qs). q' = 0 \<or> (pow2 (- 501) \<le> q' \<and> q' \<le> pow2 501)"
    using qs(2) q(2) by simp
  ultimately show ?case by blast
qed

lemma pow2_quot_range:
  "pow2 (- 501) / pow2 505 = pow2 (- 1006)" "pow2 (- 1022) \<le> pow2 (- 1006)"
  "pow2 (- 1021) \<le> pow2 (- 1006) / 2" "2 \<le> pow2 1023"
proof -
  have "pow2 (- 501) = pow2 (- 1006) * pow2 505" unfolding pow2_add [symmetric] by simp
  then show "pow2 (- 501) / pow2 505 = pow2 (- 1006)" using pow2_pos [of 505] by simp
  show "pow2 (- 1022) \<le> pow2 (- 1006)" by (rule pow2_mono) simp
  have "pow2 (- 1006) = pow2 (- 1007) * pow2 1" unfolding pow2_add [symmetric] by simp
  moreover have "pow2 (- 1021) \<le> pow2 (- 1007)" by (rule pow2_mono) simp
  ultimately show "pow2 (- 1021) \<le> pow2 (- 1006) / 2" by (simp add: pow2_def)
  show "2 \<le> pow2 1023" using pow2_le_numeral(6) by linarith
qed

text \<open>One proportion: a rounded square over the rounded sum of the squares.\<close>

lemma proportion_range:
  assumes "q = 0 \<or> pow2 (- 501) \<le> q" and "q \<le> 2 * S" and "0 < S" and "S \<le> pow2 505"
  shows "\<exists>p. r_div (Fin q) (Fin S) = Fin p \<and>
           q / S * (1 - 1 / 2 ^ 53) \<le> p \<and> p \<le> q / S * (1 + 1 / 2 ^ 53) \<and>
           (p = 0 \<or> (pow2 (- 1021) \<le> p \<and> p \<le> 4))"
proof (cases "q = 0")
  case True
  then show ?thesis using assms(3) by (simp add: r_div_def rnd_def round64_0)
next
  case False
  with assms(1) have q: "pow2 (- 501) \<le> q" by simp
  have qpos: "0 < q" using q pow2_pos [of "- 501"] by linarith
  have "pow2 (- 501) / pow2 505 \<le> q / S"
    using q assms(3,4) qpos pow2_pos [of "- 501"] by (intro frac_le) simp_all
  then have lo: "pow2 (- 1006) \<le> q / S" by (simp add: pow2_quot_range)
  have hi: "q / S \<le> 2" using assms(2,3) by (simp add: pos_divide_le_eq)
  have "pow2 (- 1022) \<le> q / S" "q / S \<le> pow2 1023"
    using lo hi pow2_quot_range(2,4) by linarith+
  from round64_rel_pos [OF this] obtain p where
    p: "round64 (q / S) = Fin p" "q / S * (1 - 1 / 2 ^ 53) \<le> p"
       "p \<le> q / S * (1 + 1 / 2 ^ 53)" by blast
  define y where "y = q / S"
  have ypos: "0 < y" using qpos assms(3) by (simp add: y_def)
  have "y / 2 \<le> y * (1 - 1 / 2 ^ 53)" using ypos by simp
  with p(2) lo pow2_quot_range(3) have "pow2 (- 1021) \<le> p" unfolding y_def [symmetric] by linarith
  moreover have "y * (1 + 1 / 2 ^ 53) \<le> 2 * y" using ypos by simp
  with p(3) hi have "p \<le> 4" unfolding y_def [symmetric] by linarith
  moreover have "r_div (Fin q) (Fin S) = Fin p" using assms(3) p(1) by (simp add: r_div_def rnd_def)
  ultimately show ?thesis using p(2,3) by blast
qed

lemma proportions_range:
  assumes "\<forall>q \<in> set qs. (q = 0 \<or> pow2 (- 501) \<le> q) \<and> q \<le> 2 * S"
      and "0 < S" and "S \<le> pow2 505"
  shows "\<exists>ps. map (\<lambda>q. r_div q (Fin S)) (map Fin qs) = map Fin ps \<and> length ps = length qs \<and>
           sum_list qs / S * (1 - 1 / 2 ^ 53) \<le> sum_list ps \<and>
           sum_list ps \<le> sum_list qs / S * (1 + 1 / 2 ^ 53) \<and>
           (\<forall>p \<in> set ps. p = 0 \<or> (pow2 (- 1021) \<le> p \<and> p \<le> 4))"
  using assms(1)
proof (induction qs)
  case Nil
  then show ?case by simp
next
  case (Cons q qs)
  then obtain ps where
    ps: "map (\<lambda>q. r_div q (Fin S)) (map Fin qs) = map Fin ps" "length ps = length qs"
        "sum_list qs / S * (1 - 1 / 2 ^ 53) \<le> sum_list ps"
        "sum_list ps \<le> sum_list qs / S * (1 + 1 / 2 ^ 53)"
        "\<forall>p \<in> set ps. p = 0 \<or> (pow2 (- 1021) \<le> p \<and> p \<le> 4)" by auto
  have q: "q = 0 \<or> pow2 (- 501) \<le> q" "q \<le> 2 * S" using Cons.prems by simp_all
  from proportion_range [OF q assms(2,3)] obtain p where
    p: "r_div (Fin q) (Fin S) = Fin p" "q / S * (1 - 1 / 2 ^ 53) \<le> p"
       "p \<le> q / S * (1 + 1 / 2 ^ 53)" "p = 0 \<or> (pow2 (- 1021) \<le> p \<and> p \<le> 4)" by blast
  have "map (\<lambda>q. r_div q (Fin S)) (map Fin (q # qs)) = map Fin (p # ps)"
    using ps(1) p(1) by simp
  moreover have "length (p # ps) = length (q # qs)" using ps(2) by simp
  moreover have "sum_list (q # qs) / S * (1 - 1 / 2 ^ 53) \<le> sum_list (p # ps)"
    using ps(3) p(2) by (simp add: add_divide_distrib distrib_right)
  moreover have "sum_list (p # ps) \<le> sum_list (q # qs) / S * (1 + 1 / 2 ^ 53)"
    using ps(4) p(3) by (simp add: add_divide_distrib distrib_right)
  moreover have "\<forall>p' \<in> set (p # ps). p' = 0 \<or> (pow2 (- 1021) \<le> p' \<and> p' \<le> 4)"
    using ps(5) p(4) by simp
  ultimately show ?case by blast
qed


lemma member_le_sum_list_real:
  fixes xs :: "real list"
  assumes "\<forall>x \<in> set xs. 0 \<le> x" and "q \<in> set xs"
  shows "q \<le> sum_list xs"
  using assms
proof (induction xs)
  case Nil
  then show ?case by simp
next
  case (Cons x xs)
  have "0 \<le> sum_list xs" using Cons.prems(1) by (intro sum_list_nonneg) simp
  moreover have "0 \<le> x" using Cons.prems(1) by simp
  ultimately show ?case using Cons by auto
qed

lemma pow2_sum_numeral:
  "pow2 (- 1021) \<le> pow2 (- 501)" "pow2 501 \<le> pow2 1019" "pow2 (- 501) \<le> pow2 501"
  "pow2 505 = 16 * pow2 501" "4 \<le> pow2 1019" "pow2 (- 1021) \<le> 4"
proof -
  show "pow2 (- 1021) \<le> pow2 (- 501)" "pow2 501 \<le> pow2 1019" "pow2 (- 501) \<le> pow2 501"
    by (rule pow2_mono, simp)+
  have "pow2 505 = pow2 501 * pow2 4" unfolding pow2_add [symmetric] by simp
  then show "pow2 505 = 16 * pow2 501" by (simp add: pow2_def)
  have "pow2 2 \<le> pow2 1019" by (rule pow2_mono) simp
  then show "4 \<le> pow2 1019" by (simp add: pow2_def)
  have "pow2 (- 1021) \<le> pow2 2" by (rule pow2_mono) simp
  then show "pow2 (- 1021) \<le> 4" by (simp add: pow2_def)
qed

lemma widen_bounds:
  fixes S T a :: real
  assumes "S * (1 - a / 2 ^ 52) \<le> T" and "T \<le> S * (1 + a / 2 ^ 52)"
      and "0 \<le> S" and "a \<le> 7"
  shows "S * (1 - 7 / 2 ^ 52) \<le> T" and "T \<le> S * (1 + 7 / 2 ^ 52)"
proof -
  have "S * (1 - 7 / 2 ^ 52) \<le> S * (1 - a / 2 ^ 52)"
    using assms(3,4) by (intro mult_left_mono) (simp_all add: divide_right_mono)
  with assms(1) show "S * (1 - 7 / 2 ^ 52) \<le> T" by linarith
  have "S * (1 + a / 2 ^ 52) \<le> S * (1 + 7 / 2 ^ 52)"
    using assms(3,4) by (intro mult_left_mono) (simp_all add: divide_right_mono)
  with assms(2) show "T \<le> S * (1 + 7 / 2 ^ 52)" by linarith
qed

lemma final_bounds:
  fixes T P \<rho> :: real
  assumes "P * (1 - 7 / 2 ^ 52) \<le> T" and "T \<le> P * (1 + 7 / 2 ^ 52)"
      and "\<rho> * (1 - 1 / 2 ^ 53) \<le> P" and "P \<le> \<rho> * (1 + 1 / 2 ^ 53)"
      and "\<rho> * (1 - 7 / 2 ^ 52) \<le> 1" and "1 \<le> \<rho> * (1 + 7 / 2 ^ 52)"
  shows "\<bar>T - 1\<bar> \<le> 1 / 2 ^ 48"
proof -
  have r_hi: "\<rho> \<le> 1 + 15 / 2 ^ 53" using assms(5) by simp
  have r_lo: "1 - 7 / 2 ^ 52 \<le> \<rho>" using assms(6) by simp
  have "\<rho> * (1 + 1 / 2 ^ 53) \<le> (1 + 15 / 2 ^ 53) * (1 + 1 / 2 ^ 53)"
    using r_hi by (intro mult_right_mono) simp_all
  also have "\<dots> \<le> 1 + 17 / 2 ^ 53" by simp
  finally have p_hi: "P \<le> 1 + 17 / 2 ^ 53" using assms(4) by linarith
  have "(1 - 8 / 2 ^ 52 :: real) \<le> (1 - 7 / 2 ^ 52) * (1 - 1 / 2 ^ 53)" by simp
  also have "\<dots> \<le> \<rho> * (1 - 1 / 2 ^ 53)" using r_lo by (intro mult_right_mono) simp_all
  finally have p_lo: "1 - 8 / 2 ^ 52 \<le> P" using assms(3) by linarith
  have "P * (1 + 7 / 2 ^ 52) \<le> (1 + 17 / 2 ^ 53) * (1 + 7 / 2 ^ 52)"
    using p_hi by (intro mult_right_mono) simp_all
  also have "\<dots> \<le> 1 + 1 / 2 ^ 48" by simp
  finally have t_hi: "T \<le> 1 + 1 / 2 ^ 48" using assms(2) by linarith
  have "(1 - 1 / 2 ^ 48 :: real) \<le> (1 - 8 / 2 ^ 52) * (1 - 7 / 2 ^ 52)" by simp
  also have "\<dots> \<le> P * (1 - 7 / 2 ^ 52)" using p_lo by (intro mult_right_mono) simp_all
  finally have t_lo: "1 - 1 / 2 ^ 48 \<le> T" using assms(1) by linarith
  from t_lo t_hi show ?thesis unfolding abs_le_iff by linarith
qed

text \<open>
  The float sum of the printed proportions, for fewer than eight eigenvalues each zero
  or of moderate size and not all zero, is within \<open>2^(-48)\<close> of 1.
\<close>

lemma var_explained_sum:
  assumes len: "length eiv < 8"
      and mod: "\<forall>i < length eiv. \<exists>x. eiv ! i = Fin x \<and>
             (x = 0 \<or> (pow2 (- 250) \<le> \<bar>x\<bar> \<and> \<bar>x\<bar> \<le> pow2 250))"
      and sum: "r_sum (map (\<lambda>x. r_mul x x) eiv) = Fin S" and nz: "S \<noteq> 0"
  shows "\<exists>T. r_sum (var_explained eiv) = Fin T \<and> \<bar>T - 1\<bar> \<le> 1 / 2 ^ 48"
proof -
  from squares_range [OF mod] obtain qs where
    qs: "map (\<lambda>x. r_mul x x) eiv = map Fin qs"
        "\<forall>q \<in> set qs. q = 0 \<or> (pow2 (- 501) \<le> q \<and> q \<le> pow2 501)" by blast
  have "length (map (\<lambda>x. r_mul x x) eiv) = length (map Fin qs)" by (simp only: qs(1))
  then have lq: "length qs = length eiv" by simp
  then have l7: "length qs \<le> 7" using len by simp
  define a where "a = real (length qs)"
  have a: "0 \<le> a" "a \<le> 7" using l7 by (simp_all add: a_def)
  define Q where "Q = sum_list qs"
  have Lpos: "0 < pow2 (- 501)" by (rule pow2_pos)
  from sum_list_zero_or_ge [OF qs(2) Lpos pow2_sum_numeral(3)]
  have Q: "0 \<le> Q" "Q \<le> a * pow2 501" by (simp_all add: Q_def a_def)
  from r_sum_bounds [OF qs(2) pow2_sum_numeral(1,2) l7 pow2_sum_numeral(3)] sum
  have S0: "Q * (1 - a / 2 ^ 52) \<le> S" "S \<le> Q * (1 + a / 2 ^ 52)"
    by (simp_all add: qs(1) Q_def a_def)
  note S = widen_bounds [OF S0 Q(1) a(2)]
  have Qpos: "0 < Q"
  proof (rule ccontr)
    assume "\<not> 0 < Q"
    with Q(1) have "Q = 0" by simp
    with S have "S = 0" by simp
    with nz show False by simp
  qed
  have "Q / 2 \<le> Q * (1 - 7 / 2 ^ 52)" using Qpos by simp
  with S(1) have half: "Q / 2 \<le> S" by linarith
  then have Spos: "0 < S" using Qpos by linarith
  have "Q * (1 + 7 / 2 ^ 52) \<le> 2 * Q" using Qpos by simp
  with S(2) have "S \<le> 2 * Q" by linarith
  also have "\<dots> \<le> 2 * (a * pow2 501)" using Q(2) by simp
  also have "\<dots> \<le> 2 * (7 * pow2 501)" using a(2) pow2_pos [of 501] by simp
  also have "\<dots> \<le> pow2 505" using pow2_pos [of 501] by (simp add: pow2_sum_numeral)
  finally have Shi: "S \<le> pow2 505" .
  have nonneg: "\<forall>q \<in> set qs. 0 \<le> q" using qs(2) Lpos by auto
  have each: "\<forall>q \<in> set qs. (q = 0 \<or> pow2 (- 501) \<le> q) \<and> q \<le> 2 * S"
  proof
    fix q assume q: "q \<in> set qs"
    then have "q \<le> Q" unfolding Q_def using nonneg by (intro member_le_sum_list_real) simp_all
    with half have "q \<le> 2 * S" by linarith
    moreover have "q = 0 \<or> pow2 (- 501) \<le> q" using qs(2) q by auto
    ultimately show "(q = 0 \<or> pow2 (- 501) \<le> q) \<and> q \<le> 2 * S" by simp
  qed
  from proportions_range [OF each Spos Shi] obtain ps where
    ps: "map (\<lambda>q. r_div q (Fin S)) (map Fin qs) = map Fin ps" "length ps = length qs"
        "Q / S * (1 - 1 / 2 ^ 53) \<le> sum_list ps"
        "sum_list ps \<le> Q / S * (1 + 1 / 2 ^ 53)"
        "\<forall>p \<in> set ps. p = 0 \<or> (pow2 (- 1021) \<le> p \<and> p \<le> 4)"
    unfolding Q_def by blast
  have "var_explained eiv = map (\<lambda>q. r_div q (Fin S)) (map (\<lambda>x. r_mul x x) eiv)"
    by (simp add: var_explained_def Let_def sum)
  also have "\<dots> = map Fin ps" by (simp only: qs(1) ps(1))
  finally have ve: "var_explained eiv = map Fin ps" .
  have lp: "length ps \<le> 7" using ps(2) l7 by simp
  define P where "P = sum_list ps"
  have L1pos: "0 < pow2 (- 1021)" by (rule pow2_pos)
  from sum_list_zero_or_ge [OF ps(5) L1pos pow2_sum_numeral(6)]
  have Pnn: "0 \<le> P" by (simp add: P_def)
  from r_sum_bounds [OF ps(5) order_refl pow2_sum_numeral(5) lp pow2_sum_numeral(6)]
  obtain T where T: "r_sum (map Fin ps) = Fin T" "P * (1 - a / 2 ^ 52) \<le> T"
      "T \<le> P * (1 + a / 2 ^ 52)"
    unfolding P_def a_def ps(2) by blast
  note T' = widen_bounds [OF T(2,3) Pnn a(2)]
  define \<rho> where "\<rho> = Q / S"
  have r1: "\<rho> * (1 - 7 / 2 ^ 52) \<le> 1"
  proof -
    have "\<rho> * (1 - 7 / 2 ^ 52) = Q * (1 - 7 / 2 ^ 52) / S" by (simp add: \<rho>_def)
    also have "\<dots> \<le> 1" using S(1) Spos by (simp only: pos_divide_le_eq mult_1)
    finally show ?thesis .
  qed
  have r2: "1 \<le> \<rho> * (1 + 7 / 2 ^ 52)"
  proof -
    have "1 \<le> Q * (1 + 7 / 2 ^ 52) / S" using S(2) Spos by (simp only: pos_le_divide_eq mult_1)
    also have "\<dots> = \<rho> * (1 + 7 / 2 ^ 52)" by (simp add: \<rho>_def)
    finally show ?thesis .
  qed
  have "\<bar>T - 1\<bar> \<le> 1 / 2 ^ 48"
    using T' ps(3,4) [folded P_def \<rho>_def] r1 r2 by (rule final_bounds)
  with T(1) ve show ?thesis by auto
qed

text \<open>
  Claim C4, amended. Whenever the float sum of the squared eigenvalues of the printed
  array is a finite number other than zero, it is positive, the printed proportion of
  each component is the rounded quotient of its rounded squared eigenvalue by that sum,
  and is non-negative. If moreover the array has fewer than eight entries (numpy then
  adds them left to right) and every eigenvalue is zero or of magnitude between
  \<open>2^(-250)\<close> and \<open>2^250\<close>, the float sum of the printed proportions is within
  \<open>2^(-48)\<close> of 1.
\<close>

theorem var_explained_proportions:
  assumes "r_sum (map (\<lambda>x. r_mul x x) eiv) = Fin S" and "S \<noteq> 0"
  shows "0 < S \<and> length (var_explained eiv) = length eiv \<and>
         (\<forall>i < length eiv.
            var_explained eiv ! i = r_div (r_mul (eiv ! i) (eiv ! i)) (Fin S) \<and>
            fl_le (Fin 0) (var_explained eiv ! i)) \<and>
         (length eiv < 8 \<and>
          (\<forall>i < length eiv. \<exists>x. eiv ! i = Fin x \<and>
             (x = 0 \<or> (pow2 (- 250) \<le> \<bar>x\<bar> \<and> \<bar>x\<bar> \<le> pow2 250))) \<longrightarrow>
          (\<exists>T. r_sum (var_explained eiv) = Fin T \<and> \<bar>T - 1\<bar> \<le> 1 / 2 ^ 48))"
proof -
  note cells = var_explained_cells [OF assms]
  have "\<exists>T. r_sum (var_explained eiv) = Fin T \<and> \<bar>T - 1\<bar> \<le> 1 / 2 ^ 48"
    if "length eiv < 8" and "\<forall>i < length eiv. \<exists>x. eiv ! i = Fin x \<and>
             (x = 0 \<or> (pow2 (- 250) \<le> \<bar>x\<bar> \<and> \<bar>x\<bar> \<le> pow2 250))"
    using that assms by (rule var_explained_sum)
  with cells show ?thesis by blast
qed

lemma pow2_250_numeral:
  "pow2 (- 250) \<le> 1" "1 \<le> pow2 250" "pow2 (- 250) \<le> 3" "3 \<le> pow2 250"
proof -
  have lo: "pow2 (- 250) \<le> pow2 0" by (rule pow2_mono) simp
  have hi: "pow2 2 \<le> pow2 250" by (rule pow2_mono) simp
  show "pow2 (- 250) \<le> 1" "pow2 (- 250) \<le> 3" using lo by (simp_all add: pow2_def)
  show "1 \<le> pow2 250" "3 \<le> pow2 250" using hi by (simp_all add: pow2_def)
qed

theorem var_explained_proportions_witness:
  "r_sum (map (\<lambda>x. r_mul x x) [Fin 3, Fin 1]) = Fin 10 \<and> (10::real) \<noteq> 0 \<and>
   var_explained [Fin 3, Fin 1] ! 0 = r_div (r_mul (Fin 3) (Fin 3)) (Fin 10) \<and>
   fl_le (Fin 0) (var_explained [Fin 3, Fin 1] ! 0) \<and>
   fl_le (Fin 0) (var_explained [Fin 3, Fin 1] ! 1) \<and>
   length [Fin 3, Fin (1::real)] < 8 \<and>
   pow2 (- 250) \<le> \<bar>3\<bar> \<and> \<bar>3\<bar> \<le> pow2 250 \<and> pow2 (- 250) \<le> \<bar>1\<bar> \<and> \<bar>1\<bar> \<le> pow2 250 \<and>
   (\<exists>T. r_sum (var_explained [Fin 3, Fin 1]) = Fin T \<and> \<bar>T - 1\<bar> \<le> 1 / 2 ^ 48)"
proof -
  have h1: "r_sum (map (\<lambda>x. r_mul x x) [Fin 3, Fin 1]) = Fin 10" by (simp add: r_eval)
  have h2: "(10::real) \<noteq> 0" by simp
  note inst = var_explained_proportions [OF h1 h2]
  note c = inst [THEN conjunct2, THEN conjunct2, THEN conjunct1, rule_format]
  have c0: "var_explained [Fin 3, Fin 1] ! 0 = r_div (r_mul (Fin 3) (Fin 3)) (Fin 10)"
    and n0: "fl_le (Fin 0) (var_explained [Fin 3, Fin 1] ! 0)"
    using c [of 0] by auto
  have n1: "fl_le (Fin 0) (var_explained [Fin 3, Fin 1] ! 1)"
    using c [of 1] by auto
  have len: "length [Fin 3, Fin (1::real)] < 8" by simp
  have rng: "pow2 (- 250) \<le> \<bar>3\<bar>" "\<bar>3\<bar> \<le> pow2 250" "pow2 (- 250) \<le> \<bar>1\<bar>" "\<bar>1\<bar> \<le> pow2 250"
    using pow2_250_numeral by simp_all
  have mod: "\<forall>i < length [Fin 3, Fin (1::real)]. \<exists>x. [Fin 3, Fin 1] ! i = Fin x \<and>
             (x = 0 \<or> (pow2 (- 250) \<le> \<bar>x\<bar> \<and> \<bar>x\<bar> \<le> pow2 250))"
    using rng by (simp add: less_Suc_eq numeral_2_eq_2)
  have s: "\<exists>T. r_sum (var_explained [Fin 3, Fin 1]) = Fin T \<and> \<bar>T - 1\<bar> \<le> 1 / 2 ^ 48"
    using inst [THEN conjunct2, THEN conjunct2, THEN conjunct2] len mod by blast
  show ?thesis using h1 h2 c0 n0 n1 len rng s by (intro conjI)
qed

lemma sum_step1:
  "r_add (Fin (6004799503160661 / 36028797018963968)) (Fin (6004799503160661 / 9007199254740992)) =
   Fin (3752999689475413 / 4503599627370496)"
  using round64_I [of "- 1"
      "6004799503160661 / 36028797018963968 + 6004799503160661 / 9007199254740992"
      7505999378950826]
  by (simp add: r_add_def rnd_def pow2_def)

lemma sum_step2:
  "r_add (Fin (3752999689475413 / 4503599627370496)) (Fin (6004799503160661 / 36028797018963968)) =
   Fin (9007199254740991 / 9007199254740992)"
  using round64_I [of "- 1"
      "3752999689475413 / 4503599627370496 + 6004799503160661 / 36028797018963968"
      9007199254740991]
  by (simp add: r_add_def rnd_def pow2_def)

lemma sum_step0:
  "r_add (Fin 0) (Fin (6004799503160661 / 36028797018963968)) =
   Fin (6004799503160661 / 36028797018963968)"
  using round64_I [of "- 3" "6004799503160661 / 36028797018963968" 6004799503160661]
  by (simp add: r_add_def rnd_def pow2_def)

lemma var_explained_121:
  "var_explained [Fin 1, Fin 2, Fin 1] =
     [Fin (6004799503160661 / 36028797018963968), Fin (6004799503160661 / 9007199254740992),
      Fin (6004799503160661 / 36028797018963968)]"
  by (simp add: var_explained_def r_eval round64_sixth round64_two_thirds)

text \<open>
  Claim C4 as stated fails for the eigenvalues 1, 2, 1: the squares are 1, 4, 1, their
  sum is 6, the printed proportions are the floats nearest to 1/6, 4/6 and 1/6, and
  adding them gives \<open>1 - 2^(-53)\<close>, not 1.
\<close>

theorem var_explained_sum_counterexample:
  "var_explained [Fin 1, Fin 2, Fin 1] =
     [Fin (6004799503160661 / 36028797018963968), Fin (6004799503160661 / 9007199254740992),
      Fin (6004799503160661 / 36028797018963968)] \<and>
   r_sum (var_explained [Fin 1, Fin 2, Fin 1]) = Fin (9007199254740991 / 9007199254740992) \<and>
   r_sum (var_explained [Fin 1, Fin 2, Fin 1]) \<noteq> Fin 1"
proof -
  have "r_sum (var_explained [Fin 1, Fin 2, Fin 1]) = Fin (9007199254740991 / 9007199254740992)"
    unfolding var_explained_121 by (simp add: r_sum_def sum_step0 sum_step1 sum_step2)
  then show ?thesis using var_explained_121 by simp
qed

section \<open>Rounding error of a diagonal entry\<close>

text \<open>
  A diagonal entry: the variance \<open>v\<close> divided twice by its rounded square root.
\<close>

lemma diag_bound:
  assumes "pow2 (- 1000) \<le> v" and "v \<le> pow2 1000"
  shows "\<exists>d. clip1 (r_div (r_div (Fin v) (r_sqrt (Fin v))) (r_sqrt (Fin v))) = Fin d \<and>
           1 - 1 / 2 ^ 50 \<le> d \<and> d \<le> 1"
proof -
  define w where "w = sqrt v"
  have vpos: "0 < v" using assms(1) pow2_pos [of "- 1000"] by linarith
  have wpos: "0 < w" using vpos by (simp add: w_def)
  have ww: "w * w = v" using vpos by (simp add: w_def)
  have wlo: "pow2 (- 500) \<le> w" and whi: "w \<le> pow2 500"
    unfolding w_def using assms by (rule sqrt_pow2_bounds)+
  \<comment> \<open>the square root\<close>
  have "pow2 (- 1022) \<le> w" "w \<le> pow2 1023"
    using wlo whi pow2_le_numeral(3,4) by linarith+
  then obtain s where s: "round64 w = Fin s" "w * (1 - 1 / 2 ^ 53) \<le> s" "s \<le> w * (1 + 1 / 2 ^ 53)"
    using round64_rel_pos by blast
  define a where "a = s / w"
  have a: "1 - 1 / 2 ^ 53 \<le> a" "a \<le> 1 + 1 / 2 ^ 53"
    unfolding a_def
    by (rule ratio_bounds(1) [OF wpos s(2)], rule ratio_bounds(2) [OF wpos s(3)])
  have apos: "0 < a" using a(1) by simp
  have sa: "s = w * a" using wpos by (simp add: a_def)
  have spos: "0 < s" using wpos apos by (simp add: sa)
  have sq: "r_sqrt (Fin v) = Fin s"
    using vpos s(1) by (simp add: r_sqrt_def rnd_def w_def)
  \<comment> \<open>the first division\<close>
  have q1: "v / s = w / a" using wpos apos by (simp add: sa ww [symmetric])
  have "pow2 (- 1022) \<le> pow2 (- 500) / 2" using pow2_le_numeral(1) by (simp add: pow2_shift)
  also have "\<dots> \<le> w / 2" using wlo by simp
  also have "\<dots> \<le> w / a" using a(2) wpos apos by (intro divide_left_mono) simp_all
  finally have lo1: "pow2 (- 1022) \<le> v / s" by (simp add: q1)
  have "a \<ge> 1 / 2" using a(1) by simp
  then have "w / a \<le> w / (1 / 2)" using wpos by (intro divide_left_mono) simp_all
  also have "\<dots> = 2 * w" by simp
  also have "\<dots> \<le> 2 * pow2 500" using whi by simp
  also have "\<dots> \<le> pow2 1023" using pow2_le_numeral(2) by (simp add: pow2_shift)
  finally have hi1: "v / s \<le> pow2 1023" by (simp add: q1)
  from lo1 hi1 obtain t where t: "round64 (v / s) = Fin t"
    "v / s * (1 - 1 / 2 ^ 53) \<le> t" "t \<le> v / s * (1 + 1 / 2 ^ 53)"
    using round64_rel_pos by blast
  define b where "b = t / (w / a)"
  have wa: "0 < w / a" using wpos apos by simp
  have b: "1 - 1 / 2 ^ 53 \<le> b" "b \<le> 1 + 1 / 2 ^ 53"
    unfolding b_def
    by (rule ratio_bounds(1) [OF wa t(2) [unfolded q1]],
        rule ratio_bounds(2) [OF wa t(3) [unfolded q1]])
  have tb: "t = w / a * b" using wpos apos by (simp add: b_def)
  have d1: "r_div (Fin v) (Fin s) = Fin t"
    using spos t(1) by (simp add: r_div_def rnd_def)
  \<comment> \<open>the second division\<close>
  have q2: "t / s = b / (a * a)" using wpos apos by (simp add: tb sa)
  have bpos: "0 < b" using b(1) by simp
  have aa_hi: "a * a \<le> 2" 
  proof -
    have "a * a \<le> (1 + 1 / 2 ^ 53) * (1 + 1 / 2 ^ 53)" using a(2) apos by (intro mult_mono) simp_all
    also have "\<dots> \<le> 2" by simp
    finally show ?thesis .
  qed
  have aa_lo: "1 / 2 \<le> a * a"
  proof -
    have "(1 / 2 :: real) \<le> (1 - 1 / 2 ^ 53) * (1 - 1 / 2 ^ 53)" by simp
    also have "\<dots> \<le> a * a" using a(1) by (intro mult_mono) simp_all
    finally show ?thesis .
  qed
  have aapos: "0 < a * a" using apos by simp
  have "1 / 4 \<le> b / (a * a)"
  proof -
    have "1 / 4 * (a * a) \<le> 1 / 2" using aa_hi by simp
    also have "\<dots> \<le> b" using b(1) by simp
    finally show ?thesis using aapos by (simp add: pos_le_divide_eq)
  qed
  then have lo2: "pow2 (- 1022) \<le> t / s" unfolding q2 using pow2_le_numeral(5) by linarith
  have "b / (a * a) \<le> 4"
  proof -
    have "b \<le> 2" using b(2) by simp
    also have "\<dots> \<le> 4 * (a * a)" using aa_lo by simp
    finally show ?thesis using aapos by (simp add: pos_divide_le_eq)
  qed
  then have hi2: "t / s \<le> pow2 1023" unfolding q2 using pow2_le_numeral(6) by linarith
  from lo2 hi2 obtain d0 where d0: "round64 (t / s) = Fin d0"
    "t / s * (1 - 1 / 2 ^ 53) \<le> d0"
    using round64_rel_pos by blast
  define c where "c = d0 / (b / (a * a))"
  have baa: "0 < b / (a * a)" using bpos aapos by simp
  have c: "1 - 1 / 2 ^ 53 \<le> c"
    unfolding c_def by (rule ratio_bounds(1) [OF baa d0(2) [unfolded q2]])
  have "d0 = b * c / (a * a)" using bpos apos by (simp add: c_def)
  moreover have "1 - 1 / 2 ^ 50 \<le> b * c / (a * a)"
    using a b(1) c by (rule unit_factors_bound)
  ultimately have low: "1 - 1 / 2 ^ 50 \<le> d0" by simp
  have d2: "r_div (Fin t) (Fin s) = Fin d0"
    using spos d0(1) by (simp add: r_div_def rnd_def)
  have "clip1 (r_div (r_div (Fin v) (r_sqrt (Fin v))) (r_sqrt (Fin v))) =
        Fin (min (max d0 (- 1)) 1)"
    by (simp add: sq d1 d2)
  moreover have "1 - 1 / 2 ^ 50 \<le> min (max d0 (- 1)) 1" using low by simp
  moreover have "min (max d0 (- 1)) 1 \<le> 1" by simp
  ultimately show ?thesis by blast
qed

section \<open>Rounding error of an entry off the diagonal\<close>

lemma round64_big:
  "3 / 2 \<le> x \<Longrightarrow> clip1 (round64 x) = Fin 1"
  "x \<le> - (3 / 2) \<Longrightarrow> clip1 (round64 x) = Fin (- 1)"
proof -
  have small: "pow2 (- 1022) \<le> 1" using pow2_mono [of "- 1022" 0] by (simp add: pow2_def)
  {
    assume x: "3 / 2 \<le> x"
    then have "pow2 (- 1022) \<le> \<bar>x\<bar>" using small by linarith
    from round64_rel_gen [OF this] show "clip1 (round64 x) = Fin 1"
    proof
      assume "round64 x = signed_inf (0 < x)"
      then show ?thesis using x by (simp add: signed_inf_def)
    next
      assume "\<exists>r. round64 x = Fin r \<and> \<bar>r - x\<bar> \<le> \<bar>x\<bar> / 2 ^ 53"
      then obtain r where r: "round64 x = Fin r" "\<bar>r - x\<bar> \<le> \<bar>x\<bar> / 2 ^ 53" by blast
      have "\<bar>x\<bar> = x" using x by simp
      with r(2) have "\<bar>r - x\<bar> \<le> x / 2 ^ 53" by (simp only:)
      then have "x - x / 2 ^ 53 \<le> r" unfolding abs_le_iff by linarith
      then have "1 \<le> r" using x by simp
      then show ?thesis by (simp add: r(1))
    qed
  }
  {
    assume x: "x \<le> - (3 / 2)"
    then have "pow2 (- 1022) \<le> \<bar>x\<bar>" using small by linarith
    from round64_rel_gen [OF this] show "clip1 (round64 x) = Fin (- 1)"
    proof
      assume "round64 x = signed_inf (0 < x)"
      then show ?thesis using x by (simp add: signed_inf_def)
    next
      assume "\<exists>r. round64 x = Fin r \<and> \<bar>r - x\<bar> \<le> \<bar>x\<bar> / 2 ^ 53"
      then obtain r where r: "round64 x = Fin r" "\<bar>r - x\<bar> \<le> \<bar>x\<bar> / 2 ^ 53" by blast
      have "\<bar>x\<bar> = - x" using x by simp
      with r(2) have "\<bar>r - x\<bar> \<le> - x / 2 ^ 53" by (simp only:)
      then have "r \<le> x - x / 2 ^ 53" unfolding abs_le_iff by linarith
      then have "r \<le> - 1" using x by simp
      then show ?thesis by (simp add: r(1))
    qed
  }
qed

lemma shrink_pos:
  fixes X t r :: real
  assumes "X - X / 2 ^ 53 \<le> r" and "2 * t \<le> X" and "0 < t"
  shows "3 / 2 * t \<le> r"
  using assms by simp

lemma shrink_neg:
  fixes X t r :: real
  assumes "r \<le> X - X / 2 ^ 53" and "X \<le> - (2 * t)" and "0 < t"
  shows "r \<le> - (3 / 2) * t"
  using assms by simp

lemma pow2_574: "pow2 (- 1075) / pow2 (- 501) = pow2 (- 574)"
proof -
  have "pow2 (- 1075) = pow2 (- 574) * pow2 (- 501)" unfolding pow2_add [symmetric] by simp
  then show ?thesis using pow2_pos [of "- 501"] by simp
qed

lemma pow2_tiny: "pow2 (- 574) \<le> 1 / 2 ^ 53" "pow2 (- 1075) \<le> 1 / 2 ^ 53"
proof -
  have a: "pow2 (- 53) = 1 / 2 ^ 53" by (simp add: pow2_def)
  show "pow2 (- 574) \<le> 1 / 2 ^ 53" unfolding a [symmetric] by (rule pow2_mono) simp
  show "pow2 (- 1075) \<le> 1 / 2 ^ 53" unfolding a [symmetric] by (rule pow2_mono) simp
qed

lemma clip_lipschitz:
  fixes a q :: real
  shows "\<bar>min (max a (- 1)) 1 - min (max q (- 1)) 1\<bar> \<le> \<bar>a - q\<bar>"
  by (auto simp: min_def max_def)

text \<open>
  One entry: the covariance divided first by \<open>s\<close> and then by \<open>t\<close>, each quotient rounded,
  and clipped, is within \<open>2^(-50)\<close> of the clipped exact quotient.
\<close>

lemma two_div:
  assumes s: "pow2 (- 501) \<le> s" "s \<le> pow2 501" and t: "pow2 (- 501) \<le> t" "t \<le> pow2 501"
  shows "\<exists>a. clip1 (r_div (r_div (Fin c) (Fin s)) (Fin t)) = Fin a \<and>
           \<bar>a - min (max (c / (s * t)) (- 1)) 1\<bar> \<le> 1 / 2 ^ 50"
proof -
  define q where "q = c / (s * t)"
  have spos: "0 < s" using s(1) pow2_pos [of "- 501"] by linarith
  have tpos: "0 < t" using t(1) pow2_pos [of "- 501"] by linarith
  have x1: "c / s = q * t" using spos tpos by (simp add: q_def)
  have d1: "r_div (Fin c) (Fin s) = round64 (q * t)"
    using spos by (simp add: r_div_def rnd_def x1)
  have tlo: "pow2 (- 1022) \<le> t" using t(1) pow2_le_numeral(1) by linarith
  consider (pos) "2 \<le> q" | (neg) "q \<le> - 2" | (mid) "\<bar>q\<bar> < 2" by linarith
  then have "\<exists>a. clip1 (r_div (round64 (q * t)) (Fin t)) = Fin a \<and>
                 \<bar>a - min (max q (- 1)) 1\<bar> \<le> 1 / 2 ^ 50"
  proof cases
    case pos
    have big: "2 * t \<le> q * t" using pos tpos by simp
    then have "pow2 (- 1022) \<le> \<bar>q * t\<bar>" using tlo tpos by linarith
    from round64_rel_gen [OF this]
    have "clip1 (r_div (round64 (q * t)) (Fin t)) = Fin 1"
    proof
      assume "round64 (q * t) = signed_inf (0 < q * t)"
      then show ?thesis using big tpos by (simp add: signed_inf_def r_div_def rnd_def)
    next
      assume "\<exists>r. round64 (q * t) = Fin r \<and> \<bar>r - q * t\<bar> \<le> \<bar>q * t\<bar> / 2 ^ 53"
      then obtain r where r: "round64 (q * t) = Fin r" "\<bar>r - q * t\<bar> \<le> \<bar>q * t\<bar> / 2 ^ 53"
        by blast
      have "\<bar>q * t\<bar> = q * t" using big tpos by simp
      with r(2) have "\<bar>r - q * t\<bar> \<le> q * t / 2 ^ 53" by (simp only:)
      then have "q * t - q * t / 2 ^ 53 \<le> r" unfolding abs_le_iff by linarith
      then have "3 / 2 * t \<le> r" using big tpos by (rule shrink_pos)
      then have "3 / 2 \<le> r / t" using tpos by (simp add: pos_le_divide_eq)
      from round64_big(1) [OF this] show ?thesis
        using tpos by (simp add: r(1) r_div_def rnd_def)
    qed
    then show ?thesis using pos by simp
  next
    case neg
    have "q * t \<le> (- 2) * t" using neg tpos by (intro mult_right_mono) simp_all
    then have big: "q * t \<le> - (2 * t)" by simp
    then have "pow2 (- 1022) \<le> \<bar>q * t\<bar>" using tlo tpos by linarith
    from round64_rel_gen [OF this]
    have "clip1 (r_div (round64 (q * t)) (Fin t)) = Fin (- 1)"
    proof
      assume "round64 (q * t) = signed_inf (0 < q * t)"
      then show ?thesis using big tpos by (simp add: signed_inf_def r_div_def rnd_def)
    next
      assume "\<exists>r. round64 (q * t) = Fin r \<and> \<bar>r - q * t\<bar> \<le> \<bar>q * t\<bar> / 2 ^ 53"
      then obtain r where r: "round64 (q * t) = Fin r" "\<bar>r - q * t\<bar> \<le> \<bar>q * t\<bar> / 2 ^ 53"
        by blast
      have "\<bar>q * t\<bar> = - (q * t)" using big tpos by simp
      with r(2) have "\<bar>r - q * t\<bar> \<le> - (q * t) / 2 ^ 53" by (simp only:)
      then have "r \<le> q * t - q * t / 2 ^ 53" unfolding abs_le_iff by linarith
      then have "r \<le> - (3 / 2) * t" using big tpos by (rule shrink_neg)
      then have "r / t \<le> - (3 / 2)" using tpos by (simp add: pos_divide_le_eq)
      from round64_big(2) [OF this] show ?thesis
        using tpos by (simp add: r(1) r_div_def rnd_def)
    qed
    then show ?thesis using neg by simp
  next
    case mid
    have aq: "\<bar>q * t\<bar> = \<bar>q\<bar> * t" using tpos by (simp add: abs_mult)
    have "\<bar>q\<bar> * t \<le> 2 * t" using mid tpos by simp
    also have "\<dots> \<le> 2 * pow2 501" using t(2) by simp
    also have "\<dots> \<le> pow2 1023"
    proof -
      have "pow2 502 = pow2 501 * pow2 1" unfolding pow2_add [symmetric] by simp
      moreover have "pow2 502 \<le> pow2 1023" by (rule pow2_mono) simp
      ultimately show ?thesis by (simp add: pow2_def)
    qed
    finally have "\<bar>q * t\<bar> \<le> pow2 1023" by (simp add: aq)
    from round64_abs [OF this] obtain r where
      r: "round64 (q * t) = Fin r" "\<bar>r - q * t\<bar> \<le> \<bar>q * t\<bar> / 2 ^ 53 + pow2 (- 1075)" by blast
    define y where "y = r / t"
    have "y - q = (r - q * t) / t" using tpos by (simp add: y_def diff_divide_distrib)
    then have "\<bar>y - q\<bar> = \<bar>r - q * t\<bar> / t" using tpos by simp
    also have "\<dots> \<le> (\<bar>q\<bar> * t / 2 ^ 53 + pow2 (- 1075)) / t"
      using r(2) tpos by (simp add: aq divide_right_mono)
    also have "\<dots> = \<bar>q\<bar> / 2 ^ 53 + pow2 (- 1075) / t"
      using tpos by (simp add: add_divide_distrib)
    also have "\<dots> \<le> \<bar>q\<bar> / 2 ^ 53 + pow2 (- 574)"
    proof -
      have "pow2 (- 1075) / t \<le> pow2 (- 1075) / pow2 (- 501)"
        using t(1) pow2_pos [of "- 501"] pow2_pos [of "- 1075"]
        by (intro divide_left_mono) simp_all
      then show ?thesis by (simp add: pow2_574)
    qed
    also have "\<dots> \<le> 3 / 2 ^ 53" using mid pow2_tiny(1) by simp
    finally have e1: "\<bar>y - q\<bar> \<le> 3 / 2 ^ 53" .
    have "(3 :: real) / 2 ^ 53 \<le> 1" by simp
    with e1 have "\<bar>y - q\<bar> \<le> 1" by (rule order_trans)
    then have y3: "\<bar>y\<bar> \<le> 3" using mid by linarith
    then have "\<bar>y\<bar> \<le> pow2 1023" using pow2_le_numeral(6) by linarith
    from round64_abs [OF this] obtain a where
      a: "round64 y = Fin a" "\<bar>a - y\<bar> \<le> \<bar>y\<bar> / 2 ^ 53 + pow2 (- 1075)" by blast
    have "\<bar>y\<bar> / 2 ^ 53 \<le> 3 / 2 ^ 53" using y3 by simp
    with a(2) pow2_tiny(2) have e2: "\<bar>a - y\<bar> \<le> 4 / 2 ^ 53" by simp
    have "\<bar>a - q\<bar> \<le> \<bar>a - y\<bar> + \<bar>y - q\<bar>" by linarith
    with e1 e2 have "\<bar>a - q\<bar> \<le> 1 / 2 ^ 50" by simp
    moreover have "clip1 (r_div (round64 (q * t)) (Fin t)) = Fin (min (max a (- 1)) 1)"
      using tpos a(1) by (simp add: r(1) r_div_def rnd_def y_def)
    moreover have "\<bar>min (max a (- 1)) 1 - min (max q (- 1)) 1\<bar> \<le> \<bar>a - q\<bar>"
      by (rule clip_lipschitz)
    ultimately show ?thesis by (metis order_trans)
  qed
  then show ?thesis by (simp add: d1 q_def)
qed


lemma r_sqrt_range:
  assumes "pow2 (- 1000) \<le> v" and "v \<le> pow2 1000"
  shows "\<exists>s. r_sqrt (Fin v) = Fin s \<and> pow2 (- 501) \<le> s \<and> s \<le> pow2 501"
proof -
  define w where "w = sqrt v"
  have vpos: "0 < v" using assms(1) pow2_pos [of "- 1000"] by linarith
  have wpos: "0 < w" using vpos by (simp add: w_def)
  have wlo: "pow2 (- 500) \<le> w" and whi: "w \<le> pow2 500"
    unfolding w_def using assms by (rule sqrt_pow2_bounds)+
  have "pow2 (- 1022) \<le> w" "w \<le> pow2 1023"
    using wlo whi pow2_le_numeral(3,4) by linarith+
  then obtain s where s: "round64 w = Fin s" "w * (1 - 1 / 2 ^ 53) \<le> s" "s \<le> w * (1 + 1 / 2 ^ 53)"
    using round64_rel_pos by blast
  have "w / 2 \<le> w * (1 - 1 / 2 ^ 53)" using wpos by simp
  with s(2) wlo have lo: "pow2 (- 501) \<le> s" unfolding pow2_shift by linarith
  have "w * (1 + 1 / 2 ^ 53) \<le> 2 * w" using wpos by simp
  with s(3) whi have hi: "s \<le> pow2 501" unfolding pow2_shift by linarith
  have "r_sqrt (Fin v) = Fin s" using vpos s(1) by (simp add: r_sqrt_def rnd_def w_def)
  with lo hi show ?thesis by blast
qed

lemma offdiag_bound:
  assumes "pow2 (- 1000) \<le> vi" and "vi \<le> pow2 1000"
      and "pow2 (- 1000) \<le> vj" and "vj \<le> pow2 1000"
  shows "\<exists>a b. clip1 (r_div (r_div (Fin c) (r_sqrt (Fin vi))) (r_sqrt (Fin vj))) = Fin a \<and>
             clip1 (r_div (r_div (Fin c) (r_sqrt (Fin vj))) (r_sqrt (Fin vi))) = Fin b \<and>
             \<bar>a - b\<bar> \<le> 1 / 2 ^ 49"
proof -
  from r_sqrt_range [OF assms(1,2)] obtain s where
    s: "r_sqrt (Fin vi) = Fin s" "pow2 (- 501) \<le> s" "s \<le> pow2 501" by blast
  from r_sqrt_range [OF assms(3,4)] obtain t where
    t: "r_sqrt (Fin vj) = Fin t" "pow2 (- 501) \<le> t" "t \<le> pow2 501" by blast
  from two_div [OF s(2,3) t(2,3), of c] obtain a where
    a: "clip1 (r_div (r_div (Fin c) (Fin s)) (Fin t)) = Fin a"
       "\<bar>a - min (max (c / (s * t)) (- 1)) 1\<bar> \<le> 1 / 2 ^ 50" by blast
  from two_div [OF t(2,3) s(2,3), of c] obtain b where
    b: "clip1 (r_div (r_div (Fin c) (Fin t)) (Fin s)) = Fin b"
       "\<bar>b - min (max (c / (t * s)) (- 1)) 1\<bar> \<le> 1 / 2 ^ 50" by blast
  have "t * s = s * t" by simp
  with b(2) have b2: "\<bar>b - min (max (c / (s * t)) (- 1)) 1\<bar> \<le> 1 / 2 ^ 50" by (simp only:)
  define m where "m = min (max (c / (s * t)) (- 1)) 1"
  have "\<bar>a - b\<bar> \<le> \<bar>a - m\<bar> + \<bar>b - m\<bar>" by linarith
  also have "\<dots> \<le> 1 / 2 ^ 50 + 1 / 2 ^ 50" using a(2) b2 unfolding m_def by (rule add_mono)
  also have "\<dots> = 1 / 2 ^ 49" by simp
  finally have "\<bar>a - b\<bar> \<le> 1 / 2 ^ 49" .
  with a(1) b(1) show ?thesis unfolding s(1) t(1) by blast
qed

section \<open>Properties of the correlation matrix\<close>

lemma length_cov: "length (cov X) = length X"
  by (simp add: cov_def Let_def)

lemma length_corrcoef: "length (corrcoef X) = length X"
  by (simp add: corrcoef_def Let_def length_cov)

lemma length_corrcoef_row: "i < length X \<Longrightarrow> length (corrcoef X ! i) = length X"
  by (simp add: corrcoef_def Let_def length_cov)

lemma corrcoef_nth:
  "i < length X \<Longrightarrow> j < length X \<Longrightarrow>
   corrcoef X ! i ! j =
     clip1 (r_div (r_div (cov X ! i ! j) (r_sqrt (cov X ! i ! i))) (r_sqrt (cov X ! j ! j)))"
  by (simp add: corrcoef_def Let_def length_cov)

lemma cov_nth:
  "i < length X \<Longrightarrow> j < length X \<Longrightarrow>
   cov X ! i ! j =
     r_mul (r_sum (map2 r_mul (map (\<lambda>v. r_sub v (average (X ! i))) (X ! i))
                               (map (\<lambda>v. r_sub v (average (X ! j))) (X ! j))))
       (r_div (Fin 1)
          (Fin (if (case X of [] \<Rightarrow> 0 | x # _ \<Rightarrow> length x) \<le> 1 then 0
                else real (case X of [] \<Rightarrow> 0 | x # _ \<Rightarrow> length x) - 1)))"
  by (simp add: cov_def Let_def)

lemma in_unit_range_clip1: "in_unit_range (clip1 v)"
  by (cases v) simp_all

lemma frame_T_loc:
  "frame_T \<lparr>columns = names, index = ix,
            data = map (\<lambda>r. map (\<lambda>c. r ! pos c cs) names) rows\<rparr> =
   map (\<lambda>c. map (\<lambda>r. r ! pos c cs) rows) names"
  by (rule nth_equalityI) (simp_all add: frame_T_def)

lemma bpx_cor_eq:
  assumes "set bpx_vars \<subseteq> set (columns da)"
  shows "bpx_cor da =
         Inr (corrcoef (map (\<lambda>c. map (\<lambda>r. r ! pos c (columns da)) (data da)) bpx_vars))"
  by (simp add: bpx_cor_def loc_cols_ok [OF assms] frame_T_loc)

lemma corrcoef_square_clipped:
  "length (corrcoef X) = length X \<and>
   (\<forall>i < length X. length (corrcoef X ! i) = length X \<and>
      (\<forall>j < length X. in_unit_range (corrcoef X ! i ! j)))"
  by (simp add: length_corrcoef length_corrcoef_row corrcoef_nth in_unit_range_clip1)

lemma bpx_cov_eq:
  assumes "set bpx_vars \<subseteq> set (columns da)"
  shows "bpx_cov da =
         Inr (cov (map (\<lambda>c. map (\<lambda>r. r ! pos c (columns da)) (data da)) bpx_vars))"
  by (simp add: bpx_cov_def loc_cols_ok [OF assms] frame_T_loc)

lemma corrcoef_diag:
  assumes "i < length X" and "cov X ! i ! i = Fin v"
      and "pow2 (- 1000) \<le> v" and "v \<le> pow2 1000"
  shows "\<exists>d. corrcoef X ! i ! i = Fin d \<and> 1 - 1 / 2 ^ 50 \<le> d \<and> d \<le> 1"
  unfolding corrcoef_nth [OF assms(1,1)] assms(2) using assms(3,4) by (rule diag_bound)

lemma fl_mul_commute: "fl_mul a b = fl_mul b a"
  by (cases a; cases b) (simp_all add: mult.commute)

lemma r_mul_commute: "r_mul a b = r_mul b a"
  by (simp add: r_mul_def fl_mul_commute)

lemma map2_r_mul_commute: "map2 r_mul xs ys = map2 r_mul ys xs"
  by (induction xs ys rule: list_induct2') (simp_all add: r_mul_commute)

lemma cov_sym: "i < length X \<Longrightarrow> j < length X \<Longrightarrow> cov X ! i ! j = cov X ! j ! i"
  by (simp only: cov_nth map2_r_mul_commute [of "map (\<lambda>v. r_sub v (average (X ! i))) (X ! i)"])

lemma corrcoef_sym:
  assumes "i < length X" and "j < length X"
      and "cov X ! i ! j = Fin c" and "cov X ! i ! i = Fin vi" and "cov X ! j ! j = Fin vj"
      and "pow2 (- 1000) \<le> vi" and "vi \<le> pow2 1000"
      and "pow2 (- 1000) \<le> vj" and "vj \<le> pow2 1000"
  shows "\<exists>a b. corrcoef X ! i ! j = Fin a \<and> corrcoef X ! j ! i = Fin b \<and> \<bar>a - b\<bar> \<le> 1 / 2 ^ 49"
proof -
  have ji: "cov X ! j ! i = Fin c" using cov_sym [OF assms(2,1)] assms(3) by simp
  show ?thesis
    unfolding corrcoef_nth [OF assms(1,2)] corrcoef_nth [OF assms(2,1)] assms(3,4,5) ji
    using assms(6-9) by (rule offdiag_bound)
qed


lemma corrcoef_all:
  "length (corrcoef X) = length X \<and>
   (\<forall>i < length X. length (corrcoef X ! i) = length X \<and>
            (\<forall>j < length X. in_unit_range (corrcoef X ! i ! j)) \<and>
            (\<forall>v. cov X ! i ! i = Fin v \<and> pow2 (- 1000) \<le> v \<and> v \<le> pow2 1000 \<longrightarrow>
               (\<exists>d. corrcoef X ! i ! i = Fin d \<and> 1 - 1 / 2 ^ 50 \<le> d \<and> d \<le> 1)) \<and>
            (\<forall>j < length X. \<forall>c vi vj.
               cov X ! i ! j = Fin c \<and> cov X ! i ! i = Fin vi \<and> cov X ! j ! j = Fin vj \<and>
               pow2 (- 1000) \<le> vi \<and> vi \<le> pow2 1000 \<and>
               pow2 (- 1000) \<le> vj \<and> vj \<le> pow2 1000 \<longrightarrow>
               (\<exists>a b. corrcoef X ! i ! j = Fin a \<and> corrcoef X ! j ! i = Fin b \<and> \<bar>a - b\<bar> \<le> 1 / 2 ^ 49)))"
proof -
  have "\<And>i v. i < length X \<Longrightarrow>
      cov X ! i ! i = Fin v \<and> pow2 (- 1000) \<le> v \<and> v \<le> pow2 1000 \<Longrightarrow>
      \<exists>d. corrcoef X ! i ! i = Fin d \<and> 1 - 1 / 2 ^ 50 \<le> d \<and> d \<le> 1"
    using corrcoef_diag [of _ X] by blast
  moreover have "\<And>i j c vi vj. i < length X \<Longrightarrow> j < length X \<Longrightarrow>
      cov X ! i ! j = Fin c \<and> cov X ! i ! i = Fin vi \<and> cov X ! j ! j = Fin vj \<and>
      pow2 (- 1000) \<le> vi \<and> vi \<le> pow2 1000 \<and> pow2 (- 1000) \<le> vj \<and> vj \<le> pow2 1000 \<Longrightarrow>
      \<exists>a b. corrcoef X ! i ! j = Fin a \<and> corrcoef X ! j ! i = Fin b \<and> \<bar>a - b\<bar> \<le> 1 / 2 ^ 49"
    using corrcoef_sym [of _ X] by blast
  ultimately show ?thesis
    using corrcoef_square_clipped [of X] by blast
qed

text \<open>
  Claim C9, amended. The correlation matrix of the six blood-pressure columns, and of
  the seven body measures, is square, and every entry, on the diagonal or off it, is
  either \<open>NaN\<close> or a number between \<open>-1\<close> and \<open>1\<close>. Where the variance of a column,
  as computed by \<open>np.cov\<close>, is a number between \<open>2^(-1000)\<close> and \<open>2^1000\<close>, its diagonal
  entry is a number between \<open>1 - 2^(-50)\<close> and \<open>1\<close>; and where this holds of two
  columns whose covariance is finite, the two entries for the pair are numbers that
  differ by at most \<open>2^(-49)\<close>.
\<close>

theorem correlation_matrix_up_to_rounding:
  "(set bpx_vars \<subseteq> set (columns da) \<longrightarrow>
      (\<exists>C V. bpx_cor da = Inr C \<and> bpx_cov da = Inr V \<and> length C = 6 \<and>
         (\<forall>i < 6. length (C ! i) = 6 \<and>
            (\<forall>j < 6. in_unit_range (C ! i ! j)) \<and>
            (\<forall>v. V ! i ! i = Fin v \<and> pow2 (- 1000) \<le> v \<and> v \<le> pow2 1000 \<longrightarrow>
               (\<exists>d. C ! i ! i = Fin d \<and> 1 - 1 / 2 ^ 50 \<le> d \<and> d \<le> 1)) \<and>
            (\<forall>j < 6. \<forall>c vi vj.
               V ! i ! j = Fin c \<and> V ! i ! i = Fin vi \<and> V ! j ! j = Fin vj \<and>
               pow2 (- 1000) \<le> vi \<and> vi \<le> pow2 1000 \<and>
               pow2 (- 1000) \<le> vj \<and> vj \<le> pow2 1000 \<longrightarrow>
               (\<exists>a b. C ! i ! j = Fin a \<and> C ! j ! i = Fin b \<and> \<bar>a - b\<bar> \<le> 1 / 2 ^ 49))))) \<and>
   (columns bmx = bmx_vars \<longrightarrow>
      length (bmx_cor bmx) = 7 \<and>
      (\<forall>i < 7. length (bmx_cor bmx ! i) = 7 \<and>
            (\<forall>j < 7. in_unit_range (bmx_cor bmx ! i ! j)) \<and>
            (\<forall>v. bmx_cov bmx ! i ! i = Fin v \<and> pow2 (- 1000) \<le> v \<and> v \<le> pow2 1000 \<longrightarrow>
               (\<exists>d. bmx_cor bmx ! i ! i = Fin d \<and> 1 - 1 / 2 ^ 50 \<le> d \<and> d \<le> 1)) \<and>
            (\<forall>j < 7. \<forall>c vi vj.
               bmx_cov bmx ! i ! j = Fin c \<and> bmx_cov bmx ! i ! i = Fin vi \<and> bmx_cov bmx ! j ! j = Fin vj \<and>
               pow2 (- 1000) \<le> vi \<and> vi \<le> pow2 1000 \<and>
               pow2 (- 1000) \<le> vj \<and> vj \<le> pow2 1000 \<longrightarrow>
               (\<exists>a b. bmx_cor bmx ! i ! j = Fin a \<and> bmx_cor bmx ! j ! i = Fin b \<and> \<bar>a - b\<bar> \<le> 1 / 2 ^ 49))))"
proof (rule conjI)
  show "set bpx_vars \<subseteq> set (columns da) \<longrightarrow>
      (\<exists>C V. bpx_cor da = Inr C \<and> bpx_cov da = Inr V \<and> length C = 6 \<and>
         (\<forall>i < 6. length (C ! i) = 6 \<and>
            (\<forall>j < 6. in_unit_range (C ! i ! j)) \<and>
            (\<forall>v. V ! i ! i = Fin v \<and> pow2 (- 1000) \<le> v \<and> v \<le> pow2 1000 \<longrightarrow>
               (\<exists>d. C ! i ! i = Fin d \<and> 1 - 1 / 2 ^ 50 \<le> d \<and> d \<le> 1)) \<and>
            (\<forall>j < 6. \<forall>c vi vj.
               V ! i ! j = Fin c \<and> V ! i ! i = Fin vi \<and> V ! j ! j = Fin vj \<and>
               pow2 (- 1000) \<le> vi \<and> vi \<le> pow2 1000 \<and>
               pow2 (- 1000) \<le> vj \<and> vj \<le> pow2 1000 \<longrightarrow>
               (\<exists>a b. C ! i ! j = Fin a \<and> C ! j ! i = Fin b \<and> \<bar>a - b\<bar> \<le> 1 / 2 ^ 49))))"
  proof (rule impI)
    assume h: "set bpx_vars \<subseteq> set (columns da)"
    let ?X = "map (\<lambda>c. map (\<lambda>r. r ! pos c (columns da)) (data da)) bpx_vars"
    have len: "length ?X = 6" by (simp add: bpx_vars_length)
    have "length (corrcoef ?X) = 6 \<and>
       (\<forall>i < 6. length (corrcoef ?X ! i) = 6 \<and>
            (\<forall>j < 6. in_unit_range (corrcoef ?X ! i ! j)) \<and>
            (\<forall>v. cov ?X ! i ! i = Fin v \<and> pow2 (- 1000) \<le> v \<and> v \<le> pow2 1000 \<longrightarrow>
               (\<exists>d. corrcoef ?X ! i ! i = Fin d \<and> 1 - 1 / 2 ^ 50 \<le> d \<and> d \<le> 1)) \<and>
            (\<forall>j < 6. \<forall>c vi vj.
               cov ?X ! i ! j = Fin c \<and> cov ?X ! i ! i = Fin vi \<and> cov ?X ! j ! j = Fin vj \<and>
               pow2 (- 1000) \<le> vi \<and> vi \<le> pow2 1000 \<and>
               pow2 (- 1000) \<le> vj \<and> vj \<le> pow2 1000 \<longrightarrow>
               (\<exists>a b. corrcoef ?X ! i ! j = Fin a \<and> corrcoef ?X ! j ! i = Fin b \<and> \<bar>a - b\<bar> \<le> 1 / 2 ^ 49)))"
      using corrcoef_all [of ?X] unfolding len .
    then show "\<exists>C V. bpx_cor da = Inr C \<and> bpx_cov da = Inr V \<and> length C = 6 \<and>
         (\<forall>i < 6. length (C ! i) = 6 \<and>
            (\<forall>j < 6. in_unit_range (C ! i ! j)) \<and>
            (\<forall>v. V ! i ! i = Fin v \<and> pow2 (- 1000) \<le> v \<and> v \<le> pow2 1000 \<longrightarrow>
               (\<exists>d. C ! i ! i = Fin d \<and> 1 - 1 / 2 ^ 50 \<le> d \<and> d \<le> 1)) \<and>
            (\<forall>j < 6. \<forall>c vi vj.
               V ! i ! j = Fin c \<and> V ! i ! i = Fin vi \<and> V ! j ! j = Fin vj \<and>
               pow2 (- 1000) \<le> vi \<and> vi \<le> pow2 1000 \<and>
               pow2 (- 1000) \<le> vj \<and> vj \<le> pow2 1000 \<longrightarrow>
               (\<exists>a b. C ! i ! j = Fin a \<and> C ! j ! i = Fin b \<and> \<bar>a - b\<bar> \<le> 1 / 2 ^ 49)))"
      unfolding bpx_cor_eq [OF h] bpx_cov_eq [OF h] by blast
  qed
  show "columns bmx = bmx_vars \<longrightarrow>
      length (bmx_cor bmx) = 7 \<and>
      (\<forall>i < 7. length (bmx_cor bmx ! i) = 7 \<and>
            (\<forall>j < 7. in_unit_range (bmx_cor bmx ! i ! j)) \<and>
            (\<forall>v. bmx_cov bmx ! i ! i = Fin v \<and> pow2 (- 1000) \<le> v \<and> v \<le> pow2 1000 \<longrightarrow>
               (\<exists>d. bmx_cor bmx ! i ! i = Fin d \<and> 1 - 1 / 2 ^ 50 \<le> d \<and> d \<le> 1)) \<and>
            (\<forall>j < 7. \<forall>c vi vj.
               bmx_cov bmx ! i ! j = Fin c \<and> bmx_cov bmx ! i ! i = Fin vi \<and> bmx_cov bmx ! j ! j = Fin vj \<and>
               pow2 (- 1000) \<le> vi \<and> vi \<le> pow2 1000 \<and>
               pow2 (- 1000) \<le> vj \<and> vj \<le> pow2 1000 \<longrightarrow>
               (\<exists>a b. bmx_cor bmx ! i ! j = Fin a \<and> bmx_cor bmx ! j ! i = Fin b \<and> \<bar>a - b\<bar> \<le> 1 / 2 ^ 49)))"
  proof (rule impI)
    assume h: "columns bmx = bmx_vars"
    have len: "length (frame_T bmx) = 7" by (simp add: frame_T_def h bmx_vars_def)
    show "length (bmx_cor bmx) = 7 \<and>
      (\<forall>i < 7. length (bmx_cor bmx ! i) = 7 \<and>
            (\<forall>j < 7. in_unit_range (bmx_cor bmx ! i ! j)) \<and>
            (\<forall>v. bmx_cov bmx ! i ! i = Fin v \<and> pow2 (- 1000) \<le> v \<and> v \<le> pow2 1000 \<longrightarrow>
               (\<exists>d. bmx_cor bmx ! i ! i = Fin d \<and> 1 - 1 / 2 ^ 50 \<le> d \<and> d \<le> 1)) \<and>
            (\<forall>j < 7. \<forall>c vi vj.
               bmx_cov bmx ! i ! j = Fin c \<and> bmx_cov bmx ! i ! i = Fin vi \<and> bmx_cov bmx ! j ! j = Fin vj \<and>
               pow2 (- 1000) \<le> vi \<and> vi \<le> pow2 1000 \<and>
               pow2 (- 1000) \<le> vj \<and> vj \<le> pow2 1000 \<longrightarrow>
               (\<exists>a b. bmx_cor bmx ! i ! j = Fin a \<and> bmx_cor bmx ! j ! i = Fin b \<and> \<bar>a - b\<bar> \<le> 1 / 2 ^ 49)))"
      unfolding bmx_cor_def bmx_cov_def
      using corrcoef_all [of "frame_T bmx"] unfolding len .
  qed
qed

lemma sqrt_9: "sqrt 9 = 3"
  by (rule real_sqrt_unique) simp_all

lemma round64_sqrt_7: "round64 (sqrt 7) = Fin (2978851154656373 / 1125899906842624)"
proof -
  have lo: "(5957702309312746 - 1 / 2) / 2 ^ 51 < sqrt 7"
    by (rule real_less_rsqrt) (simp add: power2_eq_square)
  have hi: "sqrt 7 < (5957702309312746 + 1 / 2) / 2 ^ 51"
    by (rule real_less_lsqrt) (simp_all add: power2_eq_square)
  have two: "2 \<le> sqrt 7" by (rule real_le_rsqrt) simp
  have four: "sqrt 7 < 4" by (rule real_less_lsqrt) simp_all
  have "round64 (sqrt 7) = Fin (of_int 5957702309312746 * pow2 (1 - 52))"
  proof (rule round64_I)
    show "pow2 1 \<le> \<bar>sqrt 7\<bar>" using two by (simp add: pow2_def)
    show "\<bar>sqrt 7\<bar> < pow2 (1 + 1)" using four by (simp add: pow2_def)
    show "\<bar>sqrt 7 / pow2 (1 - 52) - of_int 5957702309312746\<bar> < 1 / 2"
      unfolding abs_less_iff using lo hi by (simp add: pow2_def field_simps)
    show "\<bar>of_int 5957702309312746 * pow2 (1 - 52)\<bar> < pow2 1024"
      by (simp add: pow2_def)
  qed simp
  then show ?thesis by (simp add: pow2_def)
qed

lemma ex_const_rows:
  "map (\<lambda>c. map (\<lambda>r. r ! pos c (columns ex_da_const)) (data ex_da_const)) bpx_vars =
   [[Fin 128, Fin 138], [Fin 124, Fin 132], [Fin 116, Fin 136], [Fin 70, Fin 46],
    [Fin 64, Fin 44], [Fin 62, Fin 62]]"
  by (simp add: ex_da_const_def bpx_vars_def pos_def)

lemma ex_da3_rows:
  "map (\<lambda>c. map (\<lambda>r. r ! pos c (columns ex_da3)) (data ex_da3)) bpx_vars =
   [[Fin 110, Fin 113, Fin 116], [Fin 120, Fin 125, Fin 124], [Fin 112, Fin 118, Fin 121],
    [Fin 70, Fin 72, Fin 74], [Fin 68, Fin 74, Fin 71], [Fin 66, Fin 70, Fin 74]]"
  by (simp add: ex_da3_def bpx_vars_def pos_def)

lemma cov_const_55:
  "cov [[Fin 128, Fin 138], [Fin 124, Fin 132], [Fin 116, Fin 136], [Fin 70, Fin 46],
        [Fin 64, Fin 44], [Fin 62, Fin 62]] ! 5 ! 5 = Fin 0"
  by (simp add: cov_nth r_eval)

lemma cov_da3:
  "cov [[Fin 110, Fin 113, Fin 116], [Fin 120, Fin 125, Fin 124], [Fin 112, Fin 118, Fin 121],
        [Fin 70, Fin 72, Fin 74], [Fin 68, Fin 74, Fin 71], [Fin 66, Fin 70, Fin 74]] ! 0 ! 0 = Fin 9"
  "cov [[Fin 110, Fin 113, Fin 116], [Fin 120, Fin 125, Fin 124], [Fin 112, Fin 118, Fin 121],
        [Fin 70, Fin 72, Fin 74], [Fin 68, Fin 74, Fin 71], [Fin 66, Fin 70, Fin 74]] ! 0 ! 1 = Fin 6"
  "cov [[Fin 110, Fin 113, Fin 116], [Fin 120, Fin 125, Fin 124], [Fin 112, Fin 118, Fin 121],
        [Fin 70, Fin 72, Fin 74], [Fin 68, Fin 74, Fin 71], [Fin 66, Fin 70, Fin 74]] ! 1 ! 0 = Fin 6"
  "cov [[Fin 110, Fin 113, Fin 116], [Fin 120, Fin 125, Fin 124], [Fin 112, Fin 118, Fin 121],
        [Fin 70, Fin 72, Fin 74], [Fin 68, Fin 74, Fin 71], [Fin 66, Fin 70, Fin 74]] ! 1 ! 1 = Fin 7"
  by (simp_all add: cov_nth r_eval)

lemma sd_eval:
  "r_sqrt (Fin 0) = Fin 0" "r_sqrt (Fin 9) = Fin 3"
  "r_sqrt (Fin 7) = Fin (2978851154656373 / 1125899906842624)"
  by (simp_all add: r_eval sqrt_9 round64_sqrt_7)

lemma quot_a:
  "r_div (r_div (Fin 6) (Fin 3)) (Fin (2978851154656373 / 1125899906842624)) =
   Fin (3404401319607283 / 4503599627370496)"
  using round64_I [of "- 1" "2 / (2978851154656373 / 1125899906842624)" 6808802639214566]
  by (simp add: r_eval pow2_def)

lemma quot_b1:
  "r_div (Fin 6) (Fin (2978851154656373 / 1125899906842624)) =
   Fin (5106601979410925 / 2251799813685248)"
  using round64_I [of 1 "6 / (2978851154656373 / 1125899906842624)" 5106601979410925]
  by (simp add: r_eval pow2_def)

lemma quot_b:
  "r_div (Fin (5106601979410925 / 2251799813685248)) (Fin 3) =
   Fin (6808802639214567 / 9007199254740992)"
  using round64_I [of "- 1" "5106601979410925 / 2251799813685248 / 3" 6808802639214567]
  by (simp add: r_eval pow2_def)

lemma quot_d1:
  "r_div (Fin 7) (Fin (2978851154656373 / 1125899906842624)) =
   Fin (5957702309312745 / 2251799813685248)"
  using round64_I [of 1 "7 / (2978851154656373 / 1125899906842624)" 5957702309312745]
  by (simp add: r_eval pow2_def)

lemma quot_d:
  "r_div (Fin (5957702309312745 / 2251799813685248)) (Fin (2978851154656373 / 1125899906842624)) =
   Fin (4503599627370495 / 4503599627370496)"
  using round64_I [of "- 1"
      "5957702309312745 / 2251799813685248 / (2978851154656373 / 1125899906842624)"
      9007199254740990]
  by (simp add: r_eval pow2_def)

text \<open>
  Claim C9 as stated fails in three ways. In \<open>ex_da_const\<close> the last blood-pressure
  column is 62 in both rows, its variance is zero and its diagonal entry is zero over
  zero, \<open>NaN\<close>. In \<open>ex_da3\<close> every column varies, the first two have covariance matrix
  \<open>[[9, 6], [6, 7]]\<close>, and with the square root of 7 and the two divisions rounded the
  second diagonal entry is \<open>1 - 2^(-52)\<close>, not 1, while the entries at \<open>(0, 1)\<close> and
  \<open>(1, 0)\<close>, \<open>(6 / 3) / sqrt 7\<close> and \<open>(6 / sqrt 7) / 3\<close>, differ in the last bit.
\<close>

theorem correlation_matrix_counterexample:
  "bpx_cor ex_da_const =
     Inr (corrcoef [[Fin 128, Fin 138], [Fin 124, Fin 132], [Fin 116, Fin 136],
                    [Fin 70, Fin 46], [Fin 64, Fin 44], [Fin 62, Fin 62]]) \<and>
   corrcoef [[Fin 128, Fin 138], [Fin 124, Fin 132], [Fin 116, Fin 136],
             [Fin 70, Fin 46], [Fin 64, Fin 44], [Fin 62, Fin 62]] ! 5 ! 5 = NaN \<and>
   bpx_cor ex_da3 =
     Inr (corrcoef [[Fin 110, Fin 113, Fin 116], [Fin 120, Fin 125, Fin 124],
                    [Fin 112, Fin 118, Fin 121], [Fin 70, Fin 72, Fin 74],
                    [Fin 68, Fin 74, Fin 71], [Fin 66, Fin 70, Fin 74]]) \<and>
   corrcoef [[Fin 110, Fin 113, Fin 116], [Fin 120, Fin 125, Fin 124],
             [Fin 112, Fin 118, Fin 121], [Fin 70, Fin 72, Fin 74],
             [Fin 68, Fin 74, Fin 71], [Fin 66, Fin 70, Fin 74]] ! 1 ! 1 =
     Fin (4503599627370495 / 4503599627370496) \<and>
   corrcoef [[Fin 110, Fin 113, Fin 116], [Fin 120, Fin 125, Fin 124],
             [Fin 112, Fin 118, Fin 121], [Fin 70, Fin 72, Fin 74],
             [Fin 68, Fin 74, Fin 71], [Fin 66, Fin 70, Fin 74]] ! 0 ! 1 =
     Fin (3404401319607283 / 4503599627370496) \<and>
   corrcoef [[Fin 110, Fin 113, Fin 116], [Fin 120, Fin 125, Fin 124],
             [Fin 112, Fin 118, Fin 121], [Fin 70, Fin 72, Fin 74],
             [Fin 68, Fin 74, Fin 71], [Fin 66, Fin 70, Fin 74]] ! 1 ! 0 =
     Fin (6808802639214567 / 9007199254740992)"
proof -
  let ?Xc = "[[Fin 128, Fin 138], [Fin 124, Fin 132], [Fin 116, Fin 136],
              [Fin 70, Fin 46], [Fin 64, Fin 44], [Fin 62, Fin 62]]"
  let ?X3 = "[[Fin 110, Fin 113, Fin 116], [Fin 120, Fin 125, Fin 124],
              [Fin 112, Fin 118, Fin 121], [Fin 70, Fin 72, Fin 74],
              [Fin 68, Fin 74, Fin 71], [Fin 66, Fin 70, Fin 74]]"
  have subc: "set bpx_vars \<subseteq> set (columns ex_da_const)" by (auto simp: ex_da_const_def)
  have sub3: "set bpx_vars \<subseteq> set (columns ex_da3)" by (auto simp: ex_da3_def)
  have runc: "bpx_cor ex_da_const = Inr (corrcoef ?Xc)"
    unfolding bpx_cor_eq [OF subc] ex_const_rows ..
  have run3: "bpx_cor ex_da3 = Inr (corrcoef ?X3)"
    unfolding bpx_cor_eq [OF sub3] ex_da3_rows ..
  have "corrcoef ?Xc ! 5 ! 5 =
      clip1 (r_div (r_div (cov ?Xc ! 5 ! 5) (r_sqrt (cov ?Xc ! 5 ! 5))) (r_sqrt (cov ?Xc ! 5 ! 5)))"
    by (rule corrcoef_nth) simp_all
  also have "\<dots> = NaN"
    by (simp only: cov_const_55 sd_eval) (simp add: r_div_def rnd_def)
  finally have nan: "corrcoef ?Xc ! 5 ! 5 = NaN" .
  have "corrcoef ?X3 ! 1 ! 1 =
      clip1 (r_div (r_div (cov ?X3 ! 1 ! 1) (r_sqrt (cov ?X3 ! 1 ! 1))) (r_sqrt (cov ?X3 ! 1 ! 1)))"
    by (rule corrcoef_nth) simp_all
  also have "\<dots> = Fin (4503599627370495 / 4503599627370496)"
    by (simp only: cov_da3 sd_eval quot_d1 quot_d) simp
  finally have d: "corrcoef ?X3 ! 1 ! 1 = Fin (4503599627370495 / 4503599627370496)" .
  have "corrcoef ?X3 ! 0 ! 1 =
      clip1 (r_div (r_div (cov ?X3 ! 0 ! 1) (r_sqrt (cov ?X3 ! 0 ! 0))) (r_sqrt (cov ?X3 ! 1 ! 1)))"
    by (rule corrcoef_nth) simp_all
  also have "\<dots> = Fin (3404401319607283 / 4503599627370496)"
    by (simp only: cov_da3 sd_eval quot_a) simp
  finally have a: "corrcoef ?X3 ! 0 ! 1 = Fin (3404401319607283 / 4503599627370496)" .
  have "corrcoef ?X3 ! 1 ! 0 =
      clip1 (r_div (r_div (cov ?X3 ! 1 ! 0) (r_sqrt (cov ?X3 ! 1 ! 1))) (r_sqrt (cov ?X3 ! 0 ! 0)))"
    by (rule corrcoef_nth) simp_all
  also have "\<dots> = Fin (6808802639214567 / 9007199254740992)"
    by (simp only: cov_da3 sd_eval quot_b1 quot_b) simp
  finally have b: "corrcoef ?X3 ! 1 ! 0 = Fin (6808802639214567 / 9007199254740992)" .
  from runc run3 nan d a b show ?thesis by (intro conjI)
qed

lemma cov_bmx_00: "bmx_cov ex_bmx ! 0 ! 0 = Fin 8"
  by (simp add: bmx_cov_def ex_bmx_def frame_T_def bmx_vars_def cov_nth r_eval)

lemma pow2_range_numeral:
  "pow2 (- 1000) \<le> 7" "7 \<le> pow2 1000" "pow2 (- 1000) \<le> 8" "8 \<le> pow2 1000"
proof -
  have lo: "pow2 (- 1000) \<le> pow2 0" by (rule pow2_mono) simp
  have hi: "pow2 3 \<le> pow2 1000" by (rule pow2_mono) simp
  show "pow2 (- 1000) \<le> 7" "pow2 (- 1000) \<le> 8" using lo by (simp_all add: pow2_def)
  show "7 \<le> pow2 1000" "8 \<le> pow2 1000" using hi by (simp_all add: pow2_def)
qed

lemma round64_49_4: "round64 (49 / 4) = Fin (49 / 4)"
  using round64_exact [of 49 "- 2"] by (simp add: pow2_def)

lemma cov_bmx_06: "bmx_cov ex_bmx ! 0 ! 6 = Fin (- 14)" "bmx_cov ex_bmx ! 6 ! 6 = Fin (49 / 2)"
  by (simp_all add: bmx_cov_def ex_bmx_def frame_T_def bmx_vars_def cov_nth r_eval round64_49_4)

lemma pow2_range_numeral2:
  "pow2 (- 1000) \<le> 9" "9 \<le> pow2 1000" "pow2 (- 1000) \<le> 49 / 2" "49 / 2 \<le> pow2 1000"
proof -
  have lo: "pow2 (- 1000) \<le> pow2 0" by (rule pow2_mono) simp
  have hi: "pow2 5 \<le> pow2 1000" by (rule pow2_mono) simp
  show "pow2 (- 1000) \<le> 9" "pow2 (- 1000) \<le> 49 / 2" using lo by (simp_all add: pow2_def)
  show "9 \<le> pow2 1000" "49 / 2 \<le> pow2 1000" using hi by (simp_all add: pow2_def)
qed

theorem correlation_matrix_up_to_rounding_witness:
  "set bpx_vars \<subseteq> set (columns ex_da3) \<and> columns ex_bmx = bmx_vars \<and>
   (\<exists>C V. bpx_cor ex_da3 = Inr C \<and> bpx_cov ex_da3 = Inr V \<and> length C = 6 \<and>
      in_unit_range (C ! 0 ! 1) \<and>
      V ! 0 ! 1 = Fin 6 \<and> V ! 0 ! 0 = Fin 9 \<and> V ! 1 ! 1 = Fin 7 \<and>
      pow2 (- 1000) \<le> 9 \<and> 9 \<le> pow2 1000 \<and> pow2 (- 1000) \<le> 7 \<and> 7 \<le> pow2 1000 \<and>
      (\<exists>d. C ! 1 ! 1 = Fin d \<and> 1 - 1 / 2 ^ 50 \<le> d \<and> d \<le> 1) \<and>
      (\<exists>a b. C ! 0 ! 1 = Fin a \<and> C ! 1 ! 0 = Fin b \<and> \<bar>a - b\<bar> \<le> 1 / 2 ^ 49)) \<and>
   length (bmx_cor ex_bmx) = 7 \<and> in_unit_range (bmx_cor ex_bmx ! 6 ! 0) \<and>
   bmx_cov ex_bmx ! 0 ! 6 = Fin (- 14) \<and> bmx_cov ex_bmx ! 0 ! 0 = Fin 8 \<and>
   bmx_cov ex_bmx ! 6 ! 6 = Fin (49 / 2) \<and>
   pow2 (- 1000) \<le> 8 \<and> 8 \<le> pow2 1000 \<and> pow2 (- 1000) \<le> 49 / 2 \<and> 49 / 2 \<le> pow2 1000 \<and>
   (\<exists>d. bmx_cor ex_bmx ! 0 ! 0 = Fin d \<and> 1 - 1 / 2 ^ 50 \<le> d \<and> d \<le> 1) \<and>
   (\<exists>a b. bmx_cor ex_bmx ! 0 ! 6 = Fin a \<and> bmx_cor ex_bmx ! 6 ! 0 = Fin b \<and>
      \<bar>a - b\<bar> \<le> 1 / 2 ^ 49)"
proof -
  have h1: "set bpx_vars \<subseteq> set (columns ex_da3)" by (auto simp: ex_da3_def)
  have h2: "columns ex_bmx = bmx_vars" by (simp add: ex_bmx_def)
  have v: "bpx_cov ex_da3 =
      Inr (cov [[Fin 110, Fin 113, Fin 116], [Fin 120, Fin 125, Fin 124],
                [Fin 112, Fin 118, Fin 121], [Fin 70, Fin 72, Fin 74],
                [Fin 68, Fin 74, Fin 71], [Fin 66, Fin 70, Fin 74]])"
    unfolding bpx_cov_eq [OF h1] ex_da3_rows ..
  note inst = correlation_matrix_up_to_rounding [of ex_da3 ex_bmx]
  have n: "0 < (6::nat)" "1 < (6::nat)" "0 < (7::nat)" "6 < (7::nat)" by simp_all
  from inst [THEN conjunct1, THEN mp, OF h1] obtain C V where
    c: "bpx_cor ex_da3 = Inr C" and v': "bpx_cov ex_da3 = Inr V" and len: "length C = 6" and
    all: "(\<forall>i < 6. length (C ! i) = 6 \<and>
            (\<forall>j < 6. in_unit_range (C ! i ! j)) \<and>
            (\<forall>v. V ! i ! i = Fin v \<and> pow2 (- 1000) \<le> v \<and> v \<le> pow2 1000 \<longrightarrow>
               (\<exists>d. C ! i ! i = Fin d \<and> 1 - 1 / 2 ^ 50 \<le> d \<and> d \<le> 1)) \<and>
            (\<forall>j < 6. \<forall>c vi vj.
               V ! i ! j = Fin c \<and> V ! i ! i = Fin vi \<and> V ! j ! j = Fin vj \<and>
               pow2 (- 1000) \<le> vi \<and> vi \<le> pow2 1000 \<and>
               pow2 (- 1000) \<le> vj \<and> vj \<le> pow2 1000 \<longrightarrow>
               (\<exists>a b. C ! i ! j = Fin a \<and> C ! j ! i = Fin b \<and> \<bar>a - b\<bar> \<le> 1 / 2 ^ 49)))"
    by blast
  have V: "V = cov [[Fin 110, Fin 113, Fin 116], [Fin 120, Fin 125, Fin 124],
                [Fin 112, Fin 118, Fin 121], [Fin 70, Fin 72, Fin 74],
                [Fin 68, Fin 74, Fin 71], [Fin 66, Fin 70, Fin 74]]"
    using v v' by simp
  have cv: "V ! 0 ! 1 = Fin 6" "V ! 0 ! 0 = Fin 9" "V ! 1 ! 1 = Fin 7"
    by (simp_all only: V cov_da3)
  have u01: "in_unit_range (C ! 0 ! 1)" using all n(1,2) by blast
  have d11: "\<exists>d. C ! 1 ! 1 = Fin d \<and> 1 - 1 / 2 ^ 50 \<le> d \<and> d \<le> 1"
    using all n(2) cv(3) pow2_range_numeral(1,2) by blast
  have s01: "\<exists>a b. C ! 0 ! 1 = Fin a \<and> C ! 1 ! 0 = Fin b \<and> \<bar>a - b\<bar> \<le> 1 / 2 ^ 49"
    using all n(1,2) cv pow2_range_numeral(1,2) pow2_range_numeral2(1,2) by blast
  have bpx: "\<exists>C V. bpx_cor ex_da3 = Inr C \<and> bpx_cov ex_da3 = Inr V \<and> length C = 6 \<and>
      in_unit_range (C ! 0 ! 1) \<and>
      V ! 0 ! 1 = Fin 6 \<and> V ! 0 ! 0 = Fin 9 \<and> V ! 1 ! 1 = Fin 7 \<and>
      pow2 (- 1000) \<le> 9 \<and> 9 \<le> pow2 1000 \<and> pow2 (- 1000) \<le> 7 \<and> 7 \<le> pow2 1000 \<and>
      (\<exists>d. C ! 1 ! 1 = Fin d \<and> 1 - 1 / 2 ^ 50 \<le> d \<and> d \<le> 1) \<and>
      (\<exists>a b. C ! 0 ! 1 = Fin a \<and> C ! 1 ! 0 = Fin b \<and> \<bar>a - b\<bar> \<le> 1 / 2 ^ 49)"
    using c v' len u01 cv pow2_range_numeral(1,2) pow2_range_numeral2(1,2) d11 s01 by blast
  from inst [THEN conjunct2, THEN mp, OF h2] have
    len7: "length (bmx_cor ex_bmx) = 7" and
    all7: "(\<forall>i < 7. length (bmx_cor ex_bmx ! i) = 7 \<and>
            (\<forall>j < 7. in_unit_range (bmx_cor ex_bmx ! i ! j)) \<and>
            (\<forall>v. bmx_cov ex_bmx ! i ! i = Fin v \<and> pow2 (- 1000) \<le> v \<and> v \<le> pow2 1000 \<longrightarrow>
               (\<exists>d. bmx_cor ex_bmx ! i ! i = Fin d \<and> 1 - 1 / 2 ^ 50 \<le> d \<and> d \<le> 1)) \<and>
            (\<forall>j < 7. \<forall>c vi vj.
               bmx_cov ex_bmx ! i ! j = Fin c \<and> bmx_cov ex_bmx ! i ! i = Fin vi \<and> bmx_cov ex_bmx ! j ! j = Fin vj \<and>
               pow2 (- 1000) \<le> vi \<and> vi \<le> pow2 1000 \<and>
               pow2 (- 1000) \<le> vj \<and> vj \<le> pow2 1000 \<longrightarrow>
               (\<exists>a b. bmx_cor ex_bmx ! i ! j = Fin a \<and> bmx_cor ex_bmx ! j ! i = Fin b \<and> \<bar>a - b\<bar> \<le> 1 / 2 ^ 49)))"
    by blast+
  have u60: "in_unit_range (bmx_cor ex_bmx ! 6 ! 0)" using all7 n(3,4) by blast
  have d00: "\<exists>d. bmx_cor ex_bmx ! 0 ! 0 = Fin d \<and> 1 - 1 / 2 ^ 50 \<le> d \<and> d \<le> 1"
    using all7 n(3) cov_bmx_00 pow2_range_numeral(3,4) by blast
  have s06: "\<exists>a b. bmx_cor ex_bmx ! 0 ! 6 = Fin a \<and> bmx_cor ex_bmx ! 6 ! 0 = Fin b \<and>
      \<bar>a - b\<bar> \<le> 1 / 2 ^ 49"
    using all7 n(3,4) cov_bmx_00 cov_bmx_06 pow2_range_numeral(3,4) pow2_range_numeral2(3,4)
    by blast
  from h1 h2 bpx len7 u60 cov_bmx_06 cov_bmx_00 pow2_range_numeral(3,4)
    pow2_range_numeral2(3,4) d00 s06
  show ?thesis by (intro conjI)
qed


end
